theory Spec2Isabelle
  imports
    Main
    "HOL-Library.Finite_Map"
    "HOL-Library.AList"
    "HOL-Library.List_Lexorder"
begin

section \<open>Strings\<close>

text \<open>
  A Python \<open>str\<close> is a sequence of Unicode code points, so a string is a list of
  code points (natural numbers), compared lexicographically as Python compares strings.
  \<open>ustr\<close> writes an ASCII literal.
\<close>

type_synonym codepoint = nat
type_synonym ustring = "codepoint list"

definition ustr :: "string \<Rightarrow> ustring" where
  "ustr s = map of_char s"

text \<open>
  \<open>Py_UNICODE_ISSPACE\<close>: the code points that \<open>str.strip()\<close> removes and that the
  class \<open>\s\<close> of a \<open>str\<close> pattern matches.
\<close>

definition is_space :: "codepoint \<Rightarrow> bool" where
  "is_space c \<longleftrightarrow>
     (9 \<le> c \<and> c \<le> 13) \<or> (28 \<le> c \<and> c \<le> 32) \<or> c = 133 \<or> c = 160 \<or> c = 5760 \<or>
     (8192 \<le> c \<and> c \<le> 8202) \<or> c = 8232 \<or> c = 8233 \<or> c = 8239 \<or> c = 8287 \<or> c = 12288"

definition ascii_alnum :: "codepoint \<Rightarrow> bool" where
  "ascii_alnum c \<longleftrightarrow> (48 \<le> c \<and> c \<le> 57) \<or> (65 \<le> c \<and> c \<le> 90) \<or> (97 \<le> c \<and> c \<le> 122)"

text \<open>
  The class \<open>\w\<close> of a \<open>str\<close> pattern: alphanumeric code points and the underscore.
  Which code points beyond ASCII are alphanumeric is the Unicode database of the
  runtime; it is the parameter \<open>alnum\<close>.
\<close>

definition is_word :: "(codepoint \<Rightarrow> bool) \<Rightarrow> codepoint \<Rightarrow> bool" where
  "is_word alnum c \<longleftrightarrow> (if c < 128 then ascii_alnum c else alnum c) \<or> c = 95"

section \<open>The title sanitiser\<close>

text \<open>
  Lines 194 and 277 of \<open>general.py\<close>:
  \<^verbatim>\<open>re.sub(r'[^\w\s-]', '', title).strip().replace(' ', '_').replace('-', '_')\<close>
\<close>

definition re_sub_title :: "(codepoint \<Rightarrow> bool) \<Rightarrow> ustring \<Rightarrow> ustring" where
  "re_sub_title alnum t = filter (\<lambda>c. is_word alnum c \<or> is_space c \<or> c = 45) t"

definition strip :: "ustring \<Rightarrow> ustring" where
  "strip s = rev (dropWhile is_space (rev (dropWhile is_space s)))"

definition replace_char :: "codepoint \<Rightarrow> codepoint \<Rightarrow> ustring \<Rightarrow> ustring" where
  "replace_char old new s = map (\<lambda>c. if c = old then new else c) s"

definition cleaned_title :: "(codepoint \<Rightarrow> bool) \<Rightarrow> ustring \<Rightarrow> ustring" where
  "cleaned_title alnum t =
     replace_char 45 95 (replace_char 32 95 (strip (re_sub_title alnum t)))"

text \<open>
  The sanitiser as section 4.1 of the specification words it: what is not a word
  character, a space or a hyphen is removed, and every run of spaces and hyphens
  becomes one separator character.
\<close>

fun collapse_runs :: "ustring \<Rightarrow> ustring" where
  "collapse_runs [] = []"
| "collapse_runs [c] = [if c = 32 \<or> c = 45 then 95 else c]"
| "collapse_runs (c # d # s) =
     (if c = 32 \<or> c = 45
      then (if d = 32 \<or> d = 45 then collapse_runs (d # s) else 95 # collapse_runs (d # s))
      else c # collapse_runs (d # s))"

definition spec_sanitizer :: "(codepoint \<Rightarrow> bool) \<Rightarrow> ustring \<Rightarrow> ustring" where
  "spec_sanitizer alnum t = collapse_runs (strip (re_sub_title alnum t))"

section \<open>Properties of the sanitiser\<close>

lemma ustr_Nil: "ustr [] = []"
  by (simp add: ustr_def)

lemma ustr_Cons: "ustr (c # s) = of_char c # ustr s"
  by (simp add: ustr_def)

lemma underscore_word: "is_word alnum 95"
  by (simp add: is_word_def)

lemma underscore_not_space: "\<not> is_space 95"
  by (simp add: is_space_def)

lemma hyphen_not_space: "\<not> is_space 45"
  by (simp add: is_space_def)

lemma space_is_space: "is_space 32"
  by (simp add: is_space_def)

lemma strip_subset: "set (strip s) \<subseteq> set s"
proof -
  have "set (dropWhile is_space (rev (dropWhile is_space s))) \<subseteq> set (rev (dropWhile is_space s))"
    by (blast dest: set_dropWhileD)
  also have "\<dots> \<subseteq> set s"
    by (auto dest: set_dropWhileD)
  finally show ?thesis
    by (simp add: strip_def)
qed

lemma strip_Nil: "strip [] = []"
  by (simp add: strip_def)

lemma dropWhile_rev_last:
  "s \<noteq> [] \<Longrightarrow> \<not> P (last s) \<Longrightarrow> dropWhile P (rev s) = rev s"
  by (cases s rule: rev_cases) auto

lemma strip_fixed:
  assumes "s = [] \<or> (\<not> is_space (hd s) \<and> \<not> is_space (last s))"
  shows "strip s = s"
proof (cases s)
  case Nil
  then show ?thesis by (simp add: strip_def)
next
  case (Cons c r)
  with assms have h: "\<not> is_space c" and l: "\<not> is_space (last s)"
    by auto
  from h Cons have "dropWhile is_space s = s"
    by simp
  moreover from l Cons have "dropWhile is_space (rev s) = rev s"
    by (intro dropWhile_rev_last) simp_all
  ultimately show ?thesis
    by (simp add: strip_def)
qed

lemma strip_ends:
  assumes "strip s \<noteq> []"
  shows "\<not> is_space (hd (strip s))" and "\<not> is_space (last (strip s))"
proof -
  let ?a = "dropWhile is_space s"
  let ?b = "dropWhile is_space (rev ?a)"
  from assms have b: "?b \<noteq> []"
    by (simp add: strip_def)
  then have "\<not> is_space (hd ?b)"
    by (rule hd_dropWhile)
  with b show "\<not> is_space (last (strip s))"
    by (simp add: strip_def last_rev)
  from b have a: "?a \<noteq> []"
    by (cases "?a") simp_all
  then have ha: "\<not> is_space (hd ?a)"
    by (rule hd_dropWhile)
  obtain k where k: "rev ?a = k @ ?b"
    by (metis takeWhile_dropWhile_id)
  then have "?a = rev ?b @ rev k"
    by (metis rev_append rev_rev_ident)
  with b have "hd ?a = hd (rev ?b)"
    by (metis hd_append2 rev_is_Nil_conv)
  with ha show "\<not> is_space (hd (strip s))"
    by (simp add: strip_def)
qed

lemma replace_char_length: "length (replace_char a b s) = length s"
  by (simp add: replace_char_def)

lemma replace_char_Nil_iff: "replace_char a b s = [] \<longleftrightarrow> s = []"
  by (simp add: replace_char_def)

lemma replace_char_hd: "s \<noteq> [] \<Longrightarrow> hd (replace_char a b s) = (if hd s = a then b else hd s)"
  by (cases s) (simp_all add: replace_char_def)

lemma replace_char_last: "s \<noteq> [] \<Longrightarrow> last (replace_char a b s) = (if last s = a then b else last s)"
  by (simp add: replace_char_def last_map)

lemma replace_char_absent: "a \<notin> set s \<Longrightarrow> replace_char a b s = s"
  by (induction s) (simp_all add: replace_char_def)

lemma replace_char_set: "set (replace_char a b s) \<subseteq> insert b (set s - {a})"
  by (auto simp: replace_char_def)

lemma cleaned_title_chars:
  assumes "c \<in> set (cleaned_title alnum t)"
  shows "(is_word alnum c \<or> is_space c) \<and> c \<noteq> 32 \<and> c \<noteq> 45"
proof -
  let ?s = "strip (re_sub_title alnum t)"
  have kept: "\<And>d. d \<in> set ?s \<Longrightarrow> is_word alnum d \<or> is_space d \<or> d = 45"
    using strip_subset [of "re_sub_title alnum t"] by (auto simp: re_sub_title_def)
  from assms have "c \<in> insert 95 (set (replace_char 32 95 ?s) - {45})"
    using replace_char_set [of 45 95 "replace_char 32 95 ?s"] by (auto simp: cleaned_title_def)
  then have "c = 95 \<or> (c \<in> set ?s \<and> c \<noteq> 32 \<and> c \<noteq> 45)"
    using replace_char_set [of 32 95 ?s] by auto
  then show ?thesis
    using kept [of c] underscore_word [of alnum] by auto
qed

lemma cleaned_title_ends:
  assumes "cleaned_title alnum t \<noteq> []"
  shows "\<not> is_space (hd (cleaned_title alnum t)) \<and> \<not> is_space (last (cleaned_title alnum t))"
proof -
  let ?s = "strip (re_sub_title alnum t)"
  let ?r = "replace_char 32 95 ?s"
  from assms have s: "?s \<noteq> []"
    by (simp add: cleaned_title_def replace_char_Nil_iff)
  then have r: "?r \<noteq> []"
    by (simp add: replace_char_Nil_iff)
  from s have e: "\<not> is_space (hd ?s)" "\<not> is_space (last ?s)"
    by (rule strip_ends)+
  from s e have "\<not> is_space (hd ?r)" "\<not> is_space (last ?r)"
    by (simp_all add: replace_char_hd replace_char_last underscore_not_space)
  with r show ?thesis
    by (simp add: cleaned_title_def replace_char_hd replace_char_last underscore_not_space)
qed

lemma cleaned_title_length:
  "length (cleaned_title alnum t) = length (strip (re_sub_title alnum t))"
  by (simp add: cleaned_title_def replace_char_length)

lemma cleaned_title_Nil: "cleaned_title alnum [] = []"
  by (simp add: cleaned_title_def re_sub_title_def strip_def replace_char_def)

lemma replace_both:
  "replace_char 45 95 (replace_char 32 95 s) = map (\<lambda>c. if c = 32 \<or> c = 45 then 95 else c) s"
  by (induction s) (simp_all add: replace_char_def)

lemma cleaned_title_map:
  "cleaned_title alnum t =
     map (\<lambda>c. if c = 32 \<or> c = 45 then 95 else c) (strip (re_sub_title alnum t))"
  by (simp only: cleaned_title_def replace_both)

lemmas sanitiser_defs =
  ustr_def cleaned_title_def spec_sanitizer_def re_sub_title_def strip_def replace_char_def
  is_word_def is_space_def ascii_alnum_def

text \<open>
  Claim C6, as the code has it. For every title, the sanitised title holds only word
  characters and white space that is not the space character: it holds no space and no
  hyphen, since each of them has become an underscore. The replacement is one for one:
  the result is the stripped, filtered title with an underscore at each position that
  held a space or a hyphen and the same character at every other position, so it is as
  long as that title and a run of separators is not collapsed. The function is total,
  and the empty title gives the empty string.
\<close>

theorem cleaned_title_output:
  "(\<forall>c \<in> set (cleaned_title alnum t). (is_word alnum c \<or> is_space c) \<and> c \<noteq> 32 \<and> c \<noteq> 45) \<and>
   length (cleaned_title alnum t) = length (strip (re_sub_title alnum t)) \<and>
   cleaned_title alnum [] = [] \<and>
   cleaned_title alnum t =
     map (\<lambda>c. if c = 32 \<or> c = 45 then 95 else c) (strip (re_sub_title alnum t)) \<and>
   (\<forall>i < length (strip (re_sub_title alnum t)).
      cleaned_title alnum t ! i =
        (if strip (re_sub_title alnum t) ! i = 32 \<or> strip (re_sub_title alnum t) ! i = 45
         then 95 else strip (re_sub_title alnum t) ! i))"
proof -
  have pos: "\<forall>i < length (strip (re_sub_title alnum t)).
      cleaned_title alnum t ! i =
        (if strip (re_sub_title alnum t) ! i = 32 \<or> strip (re_sub_title alnum t) ! i = 45
         then 95 else strip (re_sub_title alnum t) ! i)"
    by (simp add: cleaned_title_map [of alnum t])
  have chars: "\<forall>c \<in> set (cleaned_title alnum t).
      (is_word alnum c \<or> is_space c) \<and> c \<noteq> 32 \<and> c \<noteq> 45"
    using cleaned_title_chars [of _ alnum t] by blast
  from chars cleaned_title_length [of alnum t] cleaned_title_Nil [of alnum]
    cleaned_title_map [of alnum t] pos
  show ?thesis
    by (intro conjI)
qed

theorem cleaned_title_output_witness:
  "cleaned_title (\<lambda>_. False) (ustr ''Red - Sunset!'') = ustr ''Red___Sunset'' \<and>
   is_word (\<lambda>_. False) 95 \<and>
   length (cleaned_title (\<lambda>_. False) (ustr ''Red - Sunset!'')) = 12"
proof -
  let ?t = "cleaned_title (\<lambda>_. False) (ustr ''Red - Sunset!'')"
  have v: "?t = ustr ''Red___Sunset''"
    by (simp add: sanitiser_defs)
  have m: "95 \<in> set ?t"
    by (simp add: v) (simp add: ustr_def)
  have "\<forall>c \<in> set ?t. (is_word (\<lambda>_. False) c \<or> is_space c) \<and> c \<noteq> 32 \<and> c \<noteq> 45"
    using cleaned_title_output [of "\<lambda>_. False" "ustr ''Red - Sunset!''"] by (rule conjunct1)
  from this m have "(is_word (\<lambda>_. False) 95 \<or> is_space 95) \<and> (95::nat) \<noteq> 32 \<and> (95::nat) \<noteq> 45"
    by (rule bspec)
  then have w: "is_word (\<lambda>_. False) 95"
    by (simp add: underscore_not_space)
  have l: "length ?t = 12"
    by (simp add: v) (simp add: ustr_def)
  from v w l show ?thesis
    by (intro conjI)
qed

text \<open>
  Claim C6, as stated, fails: two spaces between two letters become two underscores,
  where one separator is what the collapsing sanitiser of the specification gives.
\<close>

theorem cleaned_title_runs_counterexample:
  "cleaned_title (\<lambda>_. False) (ustr ''a  b'') = ustr ''a__b'' \<and>
   spec_sanitizer (\<lambda>_. False) (ustr ''a  b'') = ustr ''a_b'' \<and>
   cleaned_title (\<lambda>_. False) (ustr ''a  b'') \<noteq> spec_sanitizer (\<lambda>_. False) (ustr ''a  b'')"
  by (simp add: sanitiser_defs)

text \<open>
  Claim C7. Sanitising is idempotent: a sanitised title holds nothing the filter
  removes, starts and ends with no white space, and holds no space and no hyphen.
\<close>

theorem cleaned_title_idempotent:
  "cleaned_title alnum (cleaned_title alnum t) = cleaned_title alnum t"
proof -
  let ?r = "cleaned_title alnum t"
  have chars: "\<And>c. c \<in> set ?r \<Longrightarrow> (is_word alnum c \<or> is_space c) \<and> c \<noteq> 32 \<and> c \<noteq> 45"
    by (rule cleaned_title_chars)
  have "re_sub_title alnum ?r = ?r"
    unfolding re_sub_title_def using chars by (intro filter_True) blast
  moreover have "strip ?r = ?r"
    using cleaned_title_ends [of alnum t] by (intro strip_fixed) blast
  moreover have "replace_char 32 95 ?r = ?r"
    using chars by (intro replace_char_absent) blast
  moreover have "replace_char 45 95 ?r = ?r"
    using chars by (intro replace_char_absent) blast
  ultimately show ?thesis
    by (simp add: cleaned_title_def [of alnum ?r])
qed

section \<open>File names\<close>

text \<open>The decimal numeral of a counter, as an f-string formats an \<open>int\<close> that is not negative.\<close>

fun str_nat :: "nat \<Rightarrow> ustring" where
  "str_nat n = (if n < 10 then [48 + n] else str_nat (n div 10) @ [48 + n mod 10])"

declare str_nat.simps [simp del]

definition PROCESSED_SUFFIX :: ustring where
  "PROCESSED_SUFFIX = ustr ''_DESC''"

definition numbered_filename :: "ustring \<Rightarrow> ustring \<Rightarrow> nat \<Rightarrow> ustring" where
  "numbered_filename new_base_name ext counter = new_base_name @ ustr ''_'' @ str_nat counter @ ext"

section \<open>The directory\<close>

text \<open>
  The target directory is a finite map from file names to contents, and
  \<open>os.path.exists\<close> asks whether a name is in it.
\<close>

type_synonym 'c directory = "(ustring, 'c) fmap"

definition os_path_exists :: "'c directory \<Rightarrow> ustring \<Rightarrow> bool" where
  "os_path_exists fs p \<longleftrightarrow> fmlookup fs p \<noteq> None"

lemma str_nat_not_Nil: "str_nat n \<noteq> []"
  by (subst str_nat.simps) simp

lemma str_nat_inj: "str_nat n = str_nat m \<Longrightarrow> n = m"
proof (induction n arbitrary: m rule: str_nat.induct)
  case (1 n)
  show ?case
  proof (cases "n < 10")
    case True
    show ?thesis
    proof (cases "m < 10")
      case True
      with \<open>n < 10\<close> "1.prems" show ?thesis
        by (simp add: str_nat.simps [of n] str_nat.simps [of m])
    next
      case False
      with \<open>n < 10\<close> "1.prems" show ?thesis
        by (simp add: str_nat.simps [of n] str_nat.simps [of m] str_nat_not_Nil [THEN not_sym])
    qed
  next
    case False
    show ?thesis
    proof (cases "m < 10")
      case True
      with \<open>\<not> n < 10\<close> "1.prems" show ?thesis
        by (simp add: str_nat.simps [of n] str_nat.simps [of m] str_nat_not_Nil)
    next
      case m: False
      with False "1.prems" have "str_nat (n div 10) = str_nat (m div 10)" and r: "n mod 10 = m mod 10"
        by (simp_all add: str_nat.simps [of n] str_nat.simps [of m])
      with False "1.IH" have "n div 10 = m div 10"
        by simp
      with r show ?thesis
        by (metis div_mult_mod_eq)
    qed
  qed
qed

lemma numbered_filename_inj: "inj (numbered_filename b e)"
  by (rule injI) (simp add: numbered_filename_def str_nat_inj)

lemma finite_numbered: "finite {n. os_path_exists fs (numbered_filename b e n)}"
proof -
  have "{n. os_path_exists fs (numbered_filename b e n)} = numbered_filename b e -` fmdom' fs"
    by (auto simp: os_path_exists_def fmlookup_dom'_iff)
  then show ?thesis
    by (simp add: finite_vimageI numbered_filename_inj)
qed

definition pending :: "'c directory \<Rightarrow> ustring \<Rightarrow> ustring \<Rightarrow> nat \<Rightarrow> nat" where
  "pending fs b e c = card {n. c \<le> n \<and> os_path_exists fs (numbered_filename b e n)}"

lemma pending_step:
  "pending fs b e c =
     pending fs b e (Suc c) + (if os_path_exists fs (numbered_filename b e c) then 1 else 0)"
proof -
  let ?P = "\<lambda>n. os_path_exists fs (numbered_filename b e n)"
  have fin: "finite {n. Suc c \<le> n \<and> ?P n}"
    by (rule finite_subset [OF _ finite_numbered [of fs b e]]) blast
  show ?thesis
  proof (cases "?P c")
    case True
    then have "{n. c \<le> n \<and> ?P n} = insert c {n. Suc c \<le> n \<and> ?P n}"
      by (auto simp: le_Suc_eq)
    with fin True show ?thesis
      by (simp add: pending_def)
  next
    case False
    then have "{n. c \<le> n \<and> ?P n} = {n. Suc c \<le> n \<and> ?P n}"
      by (metis (no_types, opaque_lifting) Suc_leD Suc_leI le_neq_implies_less)
    with False show ?thesis
      by (simp add: pending_def)
  qed
qed

function conflict_loop ::
  "'c directory \<Rightarrow> ustring \<Rightarrow> ustring \<Rightarrow> ustring \<Rightarrow> nat \<Rightarrow> ustring \<times> nat" where
  "conflict_loop fs new_base_name ext new_filename counter =
     (if os_path_exists fs new_filename
      then conflict_loop fs new_base_name ext
             (numbered_filename new_base_name ext counter) (counter + 1)
      else (new_filename, counter))"
  by pat_completeness auto

termination conflict_loop
proof (relation "measure (\<lambda>(fs, b, e, f, c).
         pending fs b e c + (if os_path_exists fs f then 1 else 0))")
  show "wf (measure (\<lambda>(fs :: 'c directory, b, e, f, c).
         pending fs b e c + (if os_path_exists fs f then 1 else 0)))"
    by simp
next
  fix fs :: "'c directory" and new_base_name ext new_filename :: ustring and counter :: nat
  assume "os_path_exists fs new_filename"
  then show "((fs, new_base_name, ext, numbered_filename new_base_name ext counter, counter + 1),
              (fs, new_base_name, ext, new_filename, counter))
     \<in> measure (\<lambda>(fs, b, e, f, c). pending fs b e c + (if os_path_exists fs f then 1 else 0))"
    using pending_step [of fs new_base_name ext counter] by simp
qed

declare conflict_loop.simps [simp del]

section \<open>The environment of a run\<close>

text \<open>
  What the program reads from outside itself is a field of the record \<open>env\<close>: whether
  the global \<open>gemini_client\<close> is set, the tables of the Unicode database that
  \<open>re\<close> and \<open>str.lower\<close> use, the answer of \<open>os.listdir\<close>, whether
  \<open>Image.open\<close> can read a file's content, whether the operating system refuses a
  rename in a given directory state (permissions, a name too long, a locked file), the
  answers of the remote model, and the random identifier \<open>uuid.uuid4().hex[:8]\<close>
  drawn for a file. A file's content is a value of the type \<open>'c\<close>.
\<close>

datatype attempt =
    ApiError
  | ParseError
  | OtherError
  | Response "(ustring \<times> ustring) list"

datatype single_reply =
    SingleFailure
  | ShortTitle "ustring option"

record 'c env =
  client_ready :: bool
  isalnum :: "codepoint \<Rightarrow> bool"
  str_lower :: "ustring \<Rightarrow> ustring"
  listdir :: "ustring list"
  image_open :: "'c \<Rightarrow> bool"
  rename_denied :: "'c directory \<Rightarrow> ustring \<Rightarrow> ustring \<Rightarrow> bool"
  generate_batch :: "(ustring \<times> 'c) list \<Rightarrow> nat \<Rightarrow> attempt"
  generate_single :: "'c \<Rightarrow> single_reply"
  uuid_hex8 :: "ustring \<Rightarrow> ustring"

text \<open>
  \<open>attempt\<close> is one pass through the \<open>try\<close> block of
  \<open>get_batch_info_from_images\<close>: \<open>ApiError\<close> is a raised \<open>APIError\<close>,
  \<open>ParseError\<close> a \<open>JSONDecodeError\<close>, \<open>AttributeError\<close> or \<open>KeyError\<close>,
  \<open>OtherError\<close> any other exception (a \<open>ValidationError\<close> of the schema is one),
  and \<open>Response\<close> the parsed descriptions, each an \<open>original_filename\<close> with its
  \<open>short_title\<close>. \<open>single_reply\<close> is the request of \<open>retry_failed_file\<close>
  from \<open>Image.open\<close> to \<open>json_data.get('short_title')\<close>: an exception, or the
  value found under the key (\<open>None\<close> when there is none). A value under the key
  that is not a string makes \<open>re.sub\<close> raise inside the same \<open>try\<close> block, so
  it is a \<open>SingleFailure\<close> too.
\<close>

datatype os_error = FileNotFoundError | OSError

text \<open>
  \<open>os.rename\<close> inside the one directory: it raises when the source does not exist or
  the system refuses; otherwise the content moves to the destination name, replacing what
  was there, as on POSIX. A system that refuses to rename onto an existing name is an
  environment whose \<open>rename_denied\<close> holds in the directory states where the
  destination exists.
\<close>

definition os_rename ::
  "'c env \<Rightarrow> 'c directory \<Rightarrow> ustring \<Rightarrow> ustring \<Rightarrow> os_error + 'c directory" where
  "os_rename env fs src dst =
     (case fmlookup fs src of
        None \<Rightarrow> Inl FileNotFoundError
      | Some c \<Rightarrow>
          if rename_denied env fs src dst then Inl OSError
          else Inr (fmupd dst c (fmdrop src fs)))"

text \<open>
  \<open>os.path.splitext(name)[1]\<close> for a name that holds no path separator, as the names
  of \<open>os.listdir\<close> do: the part from the last dot on, unless every character before
  that dot is a dot.
\<close>

definition splitext_ext :: "ustring \<Rightarrow> ustring" where
  "splitext_ext p =
     (let root = rev (drop 1 (dropWhile (\<lambda>c. c \<noteq> 46) (rev p)))
      in if list_ex (\<lambda>c. c = 46) p \<and> list_ex (\<lambda>c. c \<noteq> 46) root
         then drop (length root) p else [])"

section \<open>The conflict-resolving rename\<close>

text \<open>
  Lines 276 to 288 and 194 to 205: the new name is the sanitised title, the marker and
  the extension; while a file of that name exists, the counter is appended and
  incremented; then the file is renamed. The result is the chosen name, the final
  counter, and the new directory or the error \<open>os.rename\<close> raised.
\<close>

definition MAX_RETRIES :: nat where
  "MAX_RETRIES = 3"

definition RETRY_DELAY :: nat where
  "RETRY_DELAY = 10"

definition BATCH_SIZE :: nat where
  "BATCH_SIZE = 10"

definition choose_filename :: "'c directory \<Rightarrow> ustring \<Rightarrow> ustring \<Rightarrow> ustring \<times> nat" where
  "choose_filename fs cleaned ext =
     (let new_base_name = cleaned @ PROCESSED_SUFFIX;
          new_filename = new_base_name @ ext
      in conflict_loop fs new_base_name ext new_filename 1)"

definition rename_with_title ::
  "'c env \<Rightarrow> 'c directory \<Rightarrow> ustring \<Rightarrow> ustring \<Rightarrow> ustring \<Rightarrow>
     ustring \<times> nat \<times> (os_error + 'c directory)" where
  "rename_with_title env fs src ext short_title =
     (let cleaned = cleaned_title (isalnum env) short_title;
          (new_filename, counter) = choose_filename fs cleaned ext
      in (new_filename, counter, os_rename env fs src new_filename))"

section \<open>The batch description flow\<close>

datatype event =
    LogNoClient
  | LogSending nat
  | LogApiError nat
  | LogRetrying nat
  | Sleep nat
  | LogParseError
  | LogUnexpected
  | LogRetry ustring
  | OsRename ustring ustring
  | LogTempRenamed ustring
  | LogRetrySuccess bool ustring
  | LogRetryFailed ustring
  | LogRestored ustring
  | LogFatal

text \<open>
  The dictionary \<open>result_map\<close> is an association list with one entry for each key: a
  later description of the same file name replaces the earlier one.
\<close>

definition build_result_map :: "(ustring \<times> ustring) list \<Rightarrow> (ustring \<times> ustring) list" where
  "build_result_map descriptions = foldl (\<lambda>m (f, t). AList.update f t m) [] descriptions"

text \<open>
  The loop of lines 117 to 157. \<open>retries\<close> is also the number of requests already
  made, since only the \<open>APIError\<close> branch goes round the loop and it increments
  \<open>retries\<close>. The result is the mapping or \<open>None\<close>, with the requests, log lines
  and sleeps in the order they happen.
\<close>

function attempt_loop ::
  "'c env \<Rightarrow> (ustring \<times> 'c) list \<Rightarrow> nat \<Rightarrow> event list \<Rightarrow>
     (ustring \<times> ustring) list option \<times> event list" where
  "attempt_loop env image_batch retries tr =
     (if retries < MAX_RETRIES then
        (case generate_batch env image_batch retries of
           Response descriptions \<Rightarrow>
             (Some (build_result_map descriptions), tr @ [LogSending (length image_batch)])
         | ApiError \<Rightarrow>
             (if retries + 1 < MAX_RETRIES
              then attempt_loop env image_batch (retries + 1)
                     (tr @ [LogSending (length image_batch), LogApiError (retries + 1),
                            LogRetrying RETRY_DELAY, Sleep RETRY_DELAY])
              else (None, tr @ [LogSending (length image_batch), LogApiError (retries + 1)]))
         | ParseError \<Rightarrow> (None, tr @ [LogSending (length image_batch), LogParseError])
         | OtherError \<Rightarrow> (None, tr @ [LogSending (length image_batch), LogUnexpected]))
      else (None, tr))"
  by pat_completeness auto

termination attempt_loop
  by (relation "measure (\<lambda>(env, image_batch, retries, tr). MAX_RETRIES - retries)") auto

declare attempt_loop.simps [simp del]

definition get_batch_info_from_images ::
  "'c env \<Rightarrow> (ustring \<times> 'c) list \<Rightarrow> (ustring \<times> ustring) list option \<times> event list" where
  "get_batch_info_from_images env image_batch =
     (if \<not> client_ready env then (None, [LogNoClient])
      else attempt_loop env image_batch 0 [])"

section \<open>The single-file recovery flow\<close>

text \<open>
  The handler of lines 214 to 222: whatever was raised inside the \<open>try\<close> block, the
  temporary name is renamed back to the original one, and the flow returns \<open>False\<close>.
\<close>

definition rollback ::
  "'c env \<Rightarrow> 'c directory \<Rightarrow> ustring \<Rightarrow> ustring \<Rightarrow> event list \<Rightarrow>
     bool \<times> 'c directory \<times> event list" where
  "rollback env fs temp_filename original_filename tr =
     (case os_rename env fs temp_filename original_filename of
        Inl e \<Rightarrow>
          (False, fs,
           tr @ [LogRetryFailed original_filename,
                 OsRename temp_filename original_filename, LogFatal])
      | Inr fs' \<Rightarrow>
          (False, fs',
           tr @ [LogRetryFailed original_filename,
                 OsRename temp_filename original_filename, LogRestored original_filename]))"

text \<open>
  Lines 177 to 192: the image is opened under its temporary name, the model is asked
  once, and a missing or empty title raises \<open>ValueError\<close>. \<open>None\<close> is an exception.
\<close>

definition request_title :: "'c env \<Rightarrow> 'c directory \<Rightarrow> ustring \<Rightarrow> ustring option" where
  "request_title env fs temp_filename =
     (case fmlookup fs temp_filename of
        None \<Rightarrow> None
      | Some c \<Rightarrow>
          if \<not> image_open env c then None
          else (case generate_single env c of
                  SingleFailure \<Rightarrow> None
                | ShortTitle None \<Rightarrow> None
                | ShortTitle (Some short_title) \<Rightarrow>
                    if short_title = [] then None else Some short_title))"

definition retry_failed_file ::
  "'c env \<Rightarrow> 'c directory \<Rightarrow> ustring \<Rightarrow> bool \<times> 'c directory \<times> event list" where
  "retry_failed_file env fs original_filename =
     (if \<not> client_ready env then (False, fs, [])
      else
        let ext = splitext_ext original_filename;
            temp_filename = ustr ''temp_retry_'' @ uuid_hex8 env original_filename @ ext;
            tr0 = [LogRetry original_filename, OsRename original_filename temp_filename]
        in case os_rename env fs original_filename temp_filename of
             Inl e \<Rightarrow> rollback env fs temp_filename original_filename tr0
           | Inr fs1 \<Rightarrow>
               (let tr1 = tr0 @ [LogTempRenamed temp_filename]
                in case request_title env fs1 temp_filename of
                     None \<Rightarrow> rollback env fs1 temp_filename original_filename tr1
                   | Some short_title \<Rightarrow>
                       (case rename_with_title env fs1 temp_filename ext short_title of
                          (new_filename, counter, Inl e) \<Rightarrow>
                            rollback env fs1 temp_filename original_filename
                              (tr1 @ [OsRename temp_filename new_filename])
                        | (new_filename, counter, Inr fs2) \<Rightarrow>
                            (True, fs2,
                             tr1 @ [OsRename temp_filename new_filename,
                                    LogRetrySuccess (1 < counter) new_filename]))))"

section \<open>The directory orchestrator\<close>

text \<open>
  \<open>rename_images_in_directory\<close>, lines 225 to 334. The log lines of the orchestrator,
  the optional pause between two batches and the final message box change neither the
  directory nor a count; the model leaves them out and returns the directory, the
  counts of the summary, the names marked as failed, and the calls of the recovery flow
  with their results.
\<close>

definition IMAGE_EXTENSIONS :: "ustring list" where
  "IMAGE_EXTENSIONS = [ustr ''.png'', ustr ''.jpg'', ustr ''.jpeg'', ustr ''.webp'']"

definition endswith :: "ustring \<Rightarrow> ustring \<Rightarrow> bool" where
  "endswith s suffix \<longleftrightarrow>
     length suffix \<le> length s \<and> drop (length s - length suffix) s = suffix"

fun str_contains :: "ustring \<Rightarrow> ustring \<Rightarrow> bool" where
  "str_contains sub [] \<longleftrightarrow> sub = []"
| "str_contains sub (c # s) \<longleftrightarrow> take (length sub) (c # s) = sub \<or> str_contains sub s"

definition eligible :: "'c env \<Rightarrow> ustring \<Rightarrow> bool" where
  "eligible env f \<longleftrightarrow>
     list_ex (endswith (str_lower env f)) IMAGE_EXTENSIONS \<and> \<not> str_contains PROCESSED_SUFFIX f"

record 'c run =
  dir :: "'c directory"
  batch_processed_count :: int
  failed_files_for_retry :: "ustring list"

text \<open>Lines 250 to 257: the files of the batch that open, and the others marked failed.\<close>

fun load_images ::
  "'c env \<Rightarrow> 'c directory \<Rightarrow> ustring list \<Rightarrow> (ustring \<times> 'c) list \<times> ustring list \<Rightarrow>
     (ustring \<times> 'c) list \<times> ustring list" where
  "load_images env fs [] (image_batch, failed) = (image_batch, failed)"
| "load_images env fs (filename # rest) (image_batch, failed) =
     (case fmlookup fs filename of
        None \<Rightarrow> load_images env fs rest (image_batch, failed @ [filename])
      | Some c \<Rightarrow>
          if image_open env c
          then load_images env fs rest (image_batch @ [(filename, c)], failed)
          else load_images env fs rest (image_batch, failed @ [filename]))"

text \<open>Lines 265 to 299: one file of the batch after the other.\<close>

fun process_results ::
  "'c env \<Rightarrow> (ustring \<times> ustring) list \<Rightarrow> (ustring \<times> 'c) list \<Rightarrow> 'c run \<Rightarrow> 'c run" where
  "process_results env result_map [] st = st"
| "process_results env result_map ((original_filename, img) # rest) st =
     (case map_of result_map original_filename of
        None \<Rightarrow>
          process_results env result_map rest
            (st\<lparr>failed_files_for_retry := failed_files_for_retry st @ [original_filename]\<rparr>)
      | Some short_title \<Rightarrow>
          (case rename_with_title env (dir st) original_filename
                  (splitext_ext original_filename) short_title of
             (new_filename, counter, Inr fs') \<Rightarrow>
               process_results env result_map rest
                 (st\<lparr>dir := fs', batch_processed_count := batch_processed_count st + 1\<rparr>)
           | (new_filename, counter, Inl e) \<Rightarrow>
               process_results env result_map rest
                 (st\<lparr>failed_files_for_retry := failed_files_for_retry st @ [original_filename]\<rparr>)))"

text \<open>Lines 246 to 302: one batch.\<close>

definition process_batch :: "'c env \<Rightarrow> ustring list \<Rightarrow> 'c run \<Rightarrow> 'c run" where
  "process_batch env current_batch_files st =
     (let (image_batch, failed) =
            load_images env (dir st) current_batch_files ([], failed_files_for_retry st);
          st1 = st\<lparr>failed_files_for_retry := failed\<rparr>
      in if image_batch = [] then st1
         else (case fst (get_batch_info_from_images env image_batch) of
                 None \<Rightarrow> st1\<lparr>failed_files_for_retry := failed @ current_batch_files\<rparr>
               | Some result_map \<Rightarrow>
                   if result_map = []
                   then st1\<lparr>failed_files_for_retry := failed @ current_batch_files\<rparr>
                   else process_results env result_map image_batch st1))"

function batch_loop :: "'c env \<Rightarrow> ustring list \<Rightarrow> nat \<Rightarrow> 'c run \<Rightarrow> 'c run" where
  "batch_loop env all_files file_index st =
     (if file_index < length all_files
      then batch_loop env all_files (file_index + BATCH_SIZE)
             (process_batch env (take BATCH_SIZE (drop file_index all_files)) st)
      else st)"
  by pat_completeness auto

termination batch_loop
  by (relation "measure (\<lambda>(env, all_files, file_index, st). length all_files - file_index)")
     (auto simp: BATCH_SIZE_def)

declare batch_loop.simps [simp del]

text \<open>Lines 319 to 321: the recovery flow for each name of the list, in order.\<close>

fun retry_loop ::
  "'c env \<Rightarrow> ustring list \<Rightarrow> 'c directory \<times> int \<times> (ustring \<times> bool) list \<Rightarrow>
     'c directory \<times> int \<times> (ustring \<times> bool) list" where
  "retry_loop env [] acc = acc"
| "retry_loop env (filename # rest) (fs, retry_processed_count, calls) =
     (case retry_failed_file env fs filename of
        (ok, fs', tr) \<Rightarrow>
          retry_loop env rest
            (fs', (if ok then retry_processed_count + 1 else retry_processed_count),
             calls @ [(filename, ok)]))"

record 'c summary =
  final_dir :: "'c directory"
  total_eligible_files :: int
  batch_count :: int
  retry_count :: int
  total_renamed :: int
  total_failed :: int
  failed_accumulated :: "ustring list"
  unique_failed_files :: "ustring list"
  retry_calls :: "(ustring \<times> bool) list"

definition rename_images_in_directory :: "'c env \<Rightarrow> 'c directory \<Rightarrow> 'c summary" where
  "rename_images_in_directory env fs =
     (let all_files = filter (eligible env) (listdir env);
          st = batch_loop env all_files 0
                 \<lparr>dir = fs, batch_processed_count = 0, failed_files_for_retry = []\<rparr>;
          unique = sort (remdups (failed_files_for_retry st));
          (fs', retry_processed_count, calls) = retry_loop env unique (dir st, 0, [])
      in \<lparr>final_dir = fs',
          total_eligible_files = int (length all_files),
          batch_count = batch_processed_count st,
          retry_count = retry_processed_count,
          total_renamed = batch_processed_count st + retry_processed_count,
          total_failed = int (length all_files) - (batch_processed_count st + retry_processed_count),
          failed_accumulated = failed_files_for_retry st,
          unique_failed_files = unique,
          retry_calls = calls\<rparr>)"

section \<open>Properties of the conflict-resolving rename\<close>

lemma conflict_loop_fresh:
  "\<not> os_path_exists fs (fst (conflict_loop fs b e f c))"
proof (induction fs b e f c rule: conflict_loop.induct)
  case (1 fs b e f c)
  then show ?case
    by (cases "os_path_exists fs f") (simp_all add: conflict_loop.simps [of fs b e f c])
qed

lemma conflict_loop_shape:
  "conflict_loop fs b e f c = (n, k) \<Longrightarrow>
     c \<le> k \<and> (if k = c then n = f else n = numbered_filename b e (k - 1)) \<and>
     (c < k \<longrightarrow> os_path_exists fs f) \<and>
     (\<forall>j. c \<le> j \<and> j < k - 1 \<longrightarrow> os_path_exists fs (numbered_filename b e j))"
proof (induction fs b e f c arbitrary: n k rule: conflict_loop.induct)
  case (1 fs b e f c)
  show ?case
  proof (cases "os_path_exists fs f")
    case False
    with "1.prems" have "n = f" "k = c"
      by (simp_all add: conflict_loop.simps [of fs b e f c])
    then show ?thesis
      by auto
  next
    case True
    with "1.prems" have r: "conflict_loop fs b e (numbered_filename b e c) (c + 1) = (n, k)"
      by (simp add: conflict_loop.simps [of fs b e f c])
    from "1.IH" [OF True r]
    have k: "c + 1 \<le> k"
      and n: "if k = c + 1 then n = numbered_filename b e c else n = numbered_filename b e (k - 1)"
      and first: "c + 1 < k \<longrightarrow> os_path_exists fs (numbered_filename b e c)"
      and others: "\<forall>j. c + 1 \<le> j \<and> j < k - 1 \<longrightarrow> os_path_exists fs (numbered_filename b e j)"
      by blast+
    from k have "c \<le> k" "k \<noteq> c"
      by simp_all
    moreover from n k have "n = numbered_filename b e (k - 1)"
      by (cases "k = c + 1") simp_all
    moreover have "\<forall>j. c \<le> j \<and> j < k - 1 \<longrightarrow> os_path_exists fs (numbered_filename b e j)"
    proof (intro allI impI)
      fix j
      assume j: "c \<le> j \<and> j < k - 1"
      show "os_path_exists fs (numbered_filename b e j)"
      proof (cases "j = c")
        case True
        with j first show ?thesis by simp
      next
        case False
        with j others show ?thesis by simp
      qed
    qed
    ultimately show ?thesis
      using True by simp
  qed
qed

lemma numbered_filename_not_plain: "numbered_filename b e j \<noteq> b @ e"
proof
  assume "numbered_filename b e j = b @ e"
  then have "length (numbered_filename b e j) = length (b @ e)"
    by simp
  then show False
    by (simp add: numbered_filename_def ustr_def)
qed

lemma os_rename_keeps:
  "os_rename env fs src dst = Inr fs' \<Longrightarrow> p \<noteq> src \<Longrightarrow> p \<noteq> dst \<Longrightarrow>
     fmlookup fs' p = fmlookup fs p"
  by (auto simp: os_rename_def split: option.splits if_splits)

lemma os_rename_moves:
  "os_rename env fs src dst = Inr fs' \<Longrightarrow> fmlookup fs' dst = fmlookup fs src"
  by (auto simp: os_rename_def split: option.splits if_splits)

lemma os_rename_source_gone:
  "os_rename env fs src dst = Inr fs' \<Longrightarrow> src \<noteq> dst \<Longrightarrow> fmlookup fs' src = None"
  by (auto simp: os_rename_def split: option.splits if_splits)

lemma os_rename_source_exists:
  "os_rename env fs src dst = Inr fs' \<Longrightarrow> fmlookup fs src \<noteq> None"
  by (auto simp: os_rename_def split: option.splits if_splits)

lemma rename_with_title_eq:
  "rename_with_title env fs src ext short_title =
     (fst (choose_filename fs (cleaned_title (isalnum env) short_title) ext),
      snd (choose_filename fs (cleaned_title (isalnum env) short_title) ext),
      os_rename env fs src (fst (choose_filename fs (cleaned_title (isalnum env) short_title) ext)))"
  by (simp add: rename_with_title_def Let_def split_def)

lemma choose_filename_fresh: "\<not> os_path_exists fs (fst (choose_filename fs cleaned ext))"
  by (simp add: choose_filename_def Let_def conflict_loop_fresh)

text \<open>
  A sample environment for the examples: the client is set, the tables are those of
  ASCII, every content other than \<open>0\<close> is an image that opens, no rename is refused,
  and the model answers with nothing usable. The examples override the fields they need.
\<close>

definition ascii_lower :: "ustring \<Rightarrow> ustring" where
  "ascii_lower s = map (\<lambda>c. if 65 \<le> c \<and> c \<le> 90 then c + 32 else c) s"

definition sample_env :: "nat env" where
  "sample_env =
     \<lparr>client_ready = True,
      isalnum = (\<lambda>c. False),
      str_lower = ascii_lower,
      listdir = [],
      image_open = (\<lambda>c. c \<noteq> 0),
      rename_denied = (\<lambda>fs src dst. False),
      generate_batch = (\<lambda>image_batch retries. ApiError),
      generate_single = (\<lambda>c. SingleFailure),
      uuid_hex8 = (\<lambda>original_filename. ustr ''ab12cd34'')\<rparr>"

definition sunset_dir :: "nat directory" where
  "sunset_dir = fmupd (ustr ''Red_Sunset_DESC.jpg'') 1 (fmupd (ustr ''b.jpg'') 2 fmempty)"

lemmas name_defs =
  rename_with_title_def choose_filename_def conflict_loop.simps numbered_filename_def
  str_nat.simps PROCESSED_SUFFIX_def os_path_exists_def os_rename_def splitext_ext_def

text \<open>
  Claim C1. Whatever the directory and the title, the name the counter loop chooses does
  not exist in the directory when it is chosen. It is the plain name when the final
  counter is 1, else the name numbered with the counter before the last increment; every
  candidate tried before it exists, and the numbered candidates are pairwise different,
  which is why the loop ends (the termination proof of \<open>conflict_loop\<close>). A rename
  that succeeds leaves every other file of the directory as it was.
\<close>

theorem rename_never_overwrites:
  assumes "rename_with_title env fs src ext short_title = (new_filename, counter, r)"
  shows "\<not> os_path_exists fs new_filename \<and>
         1 \<le> counter \<and>
         (if counter = 1
          then new_filename = (cleaned_title (isalnum env) short_title @ PROCESSED_SUFFIX) @ ext
          else new_filename =
                 numbered_filename (cleaned_title (isalnum env) short_title @ PROCESSED_SUFFIX)
                   ext (counter - 1)) \<and>
         (1 < counter \<longrightarrow>
            os_path_exists fs ((cleaned_title (isalnum env) short_title @ PROCESSED_SUFFIX) @ ext)) \<and>
         (\<forall>j. 1 \<le> j \<and> j < counter - 1 \<longrightarrow>
            os_path_exists fs
              (numbered_filename (cleaned_title (isalnum env) short_title @ PROCESSED_SUFFIX) ext j)) \<and>
         (\<forall>i j. numbered_filename (cleaned_title (isalnum env) short_title @ PROCESSED_SUFFIX) ext i =
                 numbered_filename (cleaned_title (isalnum env) short_title @ PROCESSED_SUFFIX) ext j
                 \<longrightarrow> i = j) \<and>
         (\<forall>fs' p. r = Inr fs' \<and> p \<noteq> src \<and> os_path_exists fs p \<longrightarrow>
            fmlookup fs' p = fmlookup fs p)"
proof -
  let ?b = "cleaned_title (isalnum env) short_title @ PROCESSED_SUFFIX"
  let ?c = "choose_filename fs (cleaned_title (isalnum env) short_title) ext"
  from assms have n: "new_filename = fst ?c" and k: "counter = snd ?c"
    and r: "r = os_rename env fs src new_filename"
    by (auto simp: rename_with_title_eq)
  from n have fresh: "\<not> os_path_exists fs new_filename"
    by (simp add: choose_filename_fresh)
  from n k have "conflict_loop fs ?b ext (?b @ ext) 1 = (new_filename, counter)"
    by (simp add: choose_filename_def Let_def)
  note shape = conflict_loop_shape [OF this]
  have inj: "\<forall>i j. numbered_filename ?b ext i = numbered_filename ?b ext j \<longrightarrow> i = j"
    using numbered_filename_inj [of ?b ext] by (simp add: inj_def)
  have keeps: "\<forall>fs' p. r = Inr fs' \<and> p \<noteq> src \<and> os_path_exists fs p \<longrightarrow>
                 fmlookup fs' p = fmlookup fs p"
  proof (intro allI impI)
    fix fs' p
    assume a: "r = Inr fs' \<and> p \<noteq> src \<and> os_path_exists fs p"
    with fresh have "p \<noteq> new_filename"
      by auto
    with a r show "fmlookup fs' p = fmlookup fs p"
      by (simp add: os_rename_keeps [of env fs src new_filename fs' p])
  qed
  from fresh shape inj keeps show ?thesis
    by (simp only: simp_thms) blast
qed

theorem rename_never_overwrites_witness:
  "rename_with_title sample_env sunset_dir (ustr ''b.jpg'') (ustr ''.jpg'') (ustr ''Red Sunset'') =
     (ustr ''Red_Sunset_DESC_1.jpg'', 2,
      Inr (fmupd (ustr ''Red_Sunset_DESC_1.jpg'') 2 (fmdrop (ustr ''b.jpg'') sunset_dir))) \<and>
   os_path_exists sunset_dir (ustr ''Red_Sunset_DESC.jpg'') \<and>
   \<not> os_path_exists sunset_dir (ustr ''Red_Sunset_DESC_1.jpg'') \<and>
   fmlookup (fmupd (ustr ''Red_Sunset_DESC_1.jpg'') 2 (fmdrop (ustr ''b.jpg'') sunset_dir))
     (ustr ''Red_Sunset_DESC.jpg'') = Some 1"
proof -
  let ?new = "ustr ''Red_Sunset_DESC_1.jpg''"
  let ?fs' = "fmupd ?new 2 (fmdrop (ustr ''b.jpg'') sunset_dir)"
  have run: "rename_with_title sample_env sunset_dir (ustr ''b.jpg'') (ustr ''.jpg'')
               (ustr ''Red Sunset'') = (?new, 2, Inr ?fs')"
    by (simp add: name_defs sanitiser_defs sample_env_def sunset_dir_def)
  have old: "os_path_exists sunset_dir (ustr ''Red_Sunset_DESC.jpg'')"
    by (simp add: os_path_exists_def sunset_dir_def)
  note t = rename_never_overwrites [OF run]
  from t have fresh: "\<not> os_path_exists sunset_dir ?new"
    by (rule conjunct1)
  from t have "\<forall>fs' p. (Inr ?fs' :: os_error + nat directory) = Inr fs' \<and> p \<noteq> ustr ''b.jpg'' \<and> os_path_exists sunset_dir p \<longrightarrow>
                 fmlookup fs' p = fmlookup sunset_dir p"
    by (elim conjE)
  then have "\<forall>p. Inr ?fs' = (Inr ?fs' :: os_error + nat directory) \<and> p \<noteq> ustr ''b.jpg'' \<and>
                 os_path_exists sunset_dir p \<longrightarrow>
               fmlookup ?fs' p = fmlookup sunset_dir p"
    by (rule spec)
  then have "Inr ?fs' = (Inr ?fs' :: os_error + nat directory) \<and>
               ustr ''Red_Sunset_DESC.jpg'' \<noteq> ustr ''b.jpg'' \<and>
               os_path_exists sunset_dir (ustr ''Red_Sunset_DESC.jpg'') \<longrightarrow>
             fmlookup ?fs' (ustr ''Red_Sunset_DESC.jpg'') =
               fmlookup sunset_dir (ustr ''Red_Sunset_DESC.jpg'')"
    by (rule spec)
  moreover have "ustr ''Red_Sunset_DESC.jpg'' \<noteq> ustr ''b.jpg''"
    by (simp add: ustr_def)
  moreover have "fmlookup sunset_dir (ustr ''Red_Sunset_DESC.jpg'') = Some 1"
    by (simp add: sunset_dir_def)
  ultimately have kept: "fmlookup ?fs' (ustr ''Red_Sunset_DESC.jpg'') = Some 1"
    using old by simp
  from run old fresh kept show ?thesis
    by (intro conjI)
qed

section \<open>Properties of the batch description flow\<close>

fun is_request :: "event \<Rightarrow> bool" where
  "is_request (LogSending n) = True"
| "is_request e = False"

fun sleeps :: "event list \<Rightarrow> nat list" where
  "sleeps [] = []"
| "sleeps (Sleep d # tr) = d # sleeps tr"
| "sleeps (e # tr) = sleeps tr"

definition count_requests :: "event list \<Rightarrow> nat" where
  "count_requests tr = length (filter is_request tr)"

lemma sleeps_append: "sleeps (tr @ tr') = sleeps tr @ sleeps tr'"
  by (induction tr rule: sleeps.induct) simp_all

lemma count_requests_append: "count_requests (tr @ tr') = count_requests tr + count_requests tr'"
  by (simp add: count_requests_def)

lemma attempt_loop_policy:
  assumes "attempt_loop env b r tr0 = (res, tr)" and "r < MAX_RETRIES"
  shows "\<exists>m. r < m \<and> m \<le> MAX_RETRIES \<and>
           count_requests tr = count_requests tr0 + (m - r) \<and>
           sleeps tr = sleeps tr0 @ replicate (m - r - 1) RETRY_DELAY \<and>
           (\<forall>k. r \<le> k \<and> k < m - 1 \<longrightarrow> generate_batch env b k = ApiError) \<and>
           (case generate_batch env b (m - 1) of
              Response d \<Rightarrow> res = Some (build_result_map d)
            | ApiError \<Rightarrow> res = None \<and> m = MAX_RETRIES
            | ParseError \<Rightarrow> res = None
            | OtherError \<Rightarrow> res = None)"
  using assms
proof (induction env b r tr0 arbitrary: res tr rule: attempt_loop.induct)
  case (1 env b r tr0)
  note run = "1.prems"(1) and lt = "1.prems"(2)
  show ?case
  proof (cases "generate_batch env b r = ApiError \<and> r + 1 < MAX_RETRIES")
    case False
    with run lt have
      "count_requests tr = count_requests tr0 + 1 \<and> sleeps tr = sleeps tr0 \<and>
       (case generate_batch env b r of
          Response d \<Rightarrow> res = Some (build_result_map d)
        | ApiError \<Rightarrow> res = None \<and> r + 1 = MAX_RETRIES
        | ParseError \<Rightarrow> res = None
        | OtherError \<Rightarrow> res = None)"
      by (auto simp: attempt_loop.simps [of env b r tr0] count_requests_append sleeps_append
            count_requests_def split: attempt.splits if_splits)
    with lt show ?thesis
      by (intro exI [of _ "r + 1"]) auto
  next
    case True
    then have api: "generate_batch env b r = ApiError" and lt': "r + 1 < MAX_RETRIES"
      by simp_all
    let ?tr1 = "tr0 @ [LogSending (length b), LogApiError (r + 1),
                       LogRetrying RETRY_DELAY, Sleep RETRY_DELAY]"
    from run lt api lt' have rec: "attempt_loop env b (r + 1) ?tr1 = (res, tr)"
      by (simp add: attempt_loop.simps [of env b r tr0])
    from "1.IH" [OF lt api lt' rec lt'] obtain m where
      m: "r + 1 < m" "m \<le> MAX_RETRIES"
      and c: "count_requests tr = count_requests ?tr1 + (m - (r + 1))"
      and s: "sleeps tr = sleeps ?tr1 @ replicate (m - (r + 1) - 1) RETRY_DELAY"
      and a: "\<forall>k. r + 1 \<le> k \<and> k < m - 1 \<longrightarrow> generate_batch env b k = ApiError"
      and l: "case generate_batch env b (m - 1) of
                Response d \<Rightarrow> res = Some (build_result_map d)
              | ApiError \<Rightarrow> res = None \<and> m = MAX_RETRIES
              | ParseError \<Rightarrow> res = None
              | OtherError \<Rightarrow> res = None"
      by blast
    from m c have c': "count_requests tr = count_requests tr0 + (m - r)"
      by (simp add: count_requests_append) (simp add: count_requests_def)
    from m have "replicate (m - r - 1) RETRY_DELAY = RETRY_DELAY # replicate (m - (r + 1) - 1) RETRY_DELAY"
      by (cases "m - r - 1") simp_all
    with s have s': "sleeps tr = sleeps tr0 @ replicate (m - r - 1) RETRY_DELAY"
      by (simp add: sleeps_append)
    have a': "\<forall>k. r \<le> k \<and> k < m - 1 \<longrightarrow> generate_batch env b k = ApiError"
    proof (intro allI impI)
      fix k assume "r \<le> k \<and> k < m - 1"
      with a api show "generate_batch env b k = ApiError"
        by (cases "k = r") simp_all
    qed
    from m c' s' a' l show ?thesis
      by (intro exI [of _ m]) simp
  qed
qed

text \<open>
  Claim C4. With the client set, the flow sends at least one and at most
  \<open>MAX_RETRIES = 3\<close> requests; it sleeps \<open>RETRY_DELAY = 10\<close> seconds between two
  requests and at no other time; every request that is followed by another one raised
  \<open>APIError\<close>, so nothing else is retried; and the last request decides the result:
  the mapping when it answered, \<open>None\<close> when it raised a parse error or any other
  exception (no further request follows), and \<open>None\<close> after an \<open>APIError\<close> only
  when it was the third request.
\<close>

theorem batch_flow_retry_policy:
  assumes "client_ready env"
    and "get_batch_info_from_images env image_batch = (res, tr)"
  shows "1 \<le> count_requests tr \<and> count_requests tr \<le> MAX_RETRIES \<and> MAX_RETRIES = 3 \<and>
         sleeps tr = replicate (count_requests tr - 1) RETRY_DELAY \<and> RETRY_DELAY = 10 \<and>
         (\<forall>k. k < count_requests tr - 1 \<longrightarrow> generate_batch env image_batch k = ApiError) \<and>
         (case generate_batch env image_batch (count_requests tr - 1) of
            Response d \<Rightarrow> res = Some (build_result_map d)
          | ApiError \<Rightarrow> res = None \<and> count_requests tr = MAX_RETRIES
          | ParseError \<Rightarrow> res = None
          | OtherError \<Rightarrow> res = None)"
proof -
  from assms have run: "attempt_loop env image_batch 0 [] = (res, tr)"
    by (simp add: get_batch_info_from_images_def)
  have "0 < MAX_RETRIES"
    by (simp add: MAX_RETRIES_def)
  from attempt_loop_policy [OF run this] obtain m where
    m: "0 < m" "m \<le> MAX_RETRIES"
    and c: "count_requests tr = count_requests [] + (m - 0)"
    and s: "sleeps tr = sleeps [] @ replicate (m - 0 - 1) RETRY_DELAY"
    and a: "\<forall>k. 0 \<le> k \<and> k < m - 1 \<longrightarrow> generate_batch env image_batch k = ApiError"
    and l: "case generate_batch env image_batch (m - 1) of
              Response d \<Rightarrow> res = Some (build_result_map d)
            | ApiError \<Rightarrow> res = None \<and> m = MAX_RETRIES
            | ParseError \<Rightarrow> res = None
            | OtherError \<Rightarrow> res = None"
    by blast
  from c have n: "count_requests tr = m"
    by (simp add: count_requests_def)
  from m s a l show ?thesis
    unfolding n by (simp add: MAX_RETRIES_def RETRY_DELAY_def)
qed

theorem batch_flow_retry_policy_witness:
  "client_ready (sample_env\<lparr>generate_batch := \<lambda>b k. if k = 0 then ApiError else ParseError\<rparr>) \<and>
   get_batch_info_from_images
     (sample_env\<lparr>generate_batch := \<lambda>b k. if k = 0 then ApiError else ParseError\<rparr>)
     [(ustr ''a.jpg'', 1)] =
     (None, [LogSending 1, LogApiError 1, LogRetrying 10, Sleep 10, LogSending 1, LogParseError]) \<and>
   count_requests
     [LogSending 1, LogApiError 1, LogRetrying 10, Sleep 10, LogSending 1, LogParseError] = 2 \<and>
   sleeps [LogSending 1, LogApiError 1, LogRetrying 10, Sleep 10, LogSending 1, LogParseError] =
     replicate
       (count_requests
          [LogSending 1, LogApiError 1, LogRetrying 10, Sleep 10, LogSending 1, LogParseError] - 1)
       RETRY_DELAY"
proof -
  let ?env = "sample_env\<lparr>generate_batch := \<lambda>b k. if k = 0 then ApiError else ParseError\<rparr>"
  let ?tr = "[LogSending 1, LogApiError 1, LogRetrying 10, Sleep 10, LogSending 1, LogParseError]"
  have ready: "client_ready ?env"
    by (simp add: sample_env_def)
  have run: "get_batch_info_from_images ?env [(ustr ''a.jpg'', 1)] = (None, ?tr)"
    by (simp add: get_batch_info_from_images_def attempt_loop.simps sample_env_def
          MAX_RETRIES_def RETRY_DELAY_def)
  have two: "count_requests ?tr = 2"
    by (simp add: count_requests_def)
  from batch_flow_retry_policy [OF ready run]
  have "sleeps ?tr = replicate (count_requests ?tr - 1) RETRY_DELAY"
    by (elim conjE)
  with ready run two show ?thesis
    by (intro conjI)
qed

section \<open>Properties of the single-file recovery flow\<close>

definition temp_name :: "'c env \<Rightarrow> ustring \<Rightarrow> ustring" where
  "temp_name env original_filename =
     ustr ''temp_retry_'' @ uuid_hex8 env original_filename @ splitext_ext original_filename"

definition cat_dir :: "nat directory" where
  "cat_dir = fmupd (ustr ''cat.jpg'') 7 fmempty"

lemma retry_failed_file_isolated:
  assumes "client_ready env"
    and "os_rename env fs original_filename (temp_name env original_filename) = Inr fs1"
    and "request_title env fs1 (temp_name env original_filename) = None"
  shows "retry_failed_file env fs original_filename =
           rollback env fs1 (temp_name env original_filename) original_filename
             [LogRetry original_filename,
              OsRename original_filename (temp_name env original_filename),
              LogTempRenamed (temp_name env original_filename)]"
  using assms by (simp add: retry_failed_file_def temp_name_def Let_def)

lemma retry_failed_file_not_isolated:
  assumes "client_ready env"
    and "os_rename env fs original_filename (temp_name env original_filename) = Inl e"
  shows "retry_failed_file env fs original_filename =
           rollback env fs (temp_name env original_filename) original_filename
             [LogRetry original_filename,
              OsRename original_filename (temp_name env original_filename)]"
  using assms by (simp add: retry_failed_file_def temp_name_def Let_def)

lemma os_rename_Inr:
  "os_rename env fs src dst = Inr fs' \<longleftrightarrow>
     (\<exists>c. fmlookup fs src = Some c \<and> \<not> rename_denied env fs src dst \<and>
          fs' = fmupd dst c (fmdrop src fs))"
  by (auto simp: os_rename_def split: option.splits)

text \<open>
  Claim C3. The isolating rename has succeeded and the request has failed. Then the flow
  returns \<open>False\<close>. When the system does not refuse the restoring rename, the file's
  content is again under its original name, nothing is left under the temporary name,
  every name other than the temporary one holds what it held before the flow, and the
  last log line is the one of a restored file. Only when the system refuses the
  restoring rename does the content stay under the temporary name, with nothing under
  the original name, and the last log line is the fatal one.
\<close>

theorem recovery_rollback:
  assumes "client_ready env"
    and "os_rename env fs original_filename (temp_name env original_filename) = Inr fs1"
    and "request_title env fs1 (temp_name env original_filename) = None"
  shows "fmlookup fs original_filename \<noteq> None \<and>
         fst (retry_failed_file env fs original_filename) = False \<and>
         (if rename_denied env fs1 (temp_name env original_filename) original_filename
          then fst (snd (retry_failed_file env fs original_filename)) = fs1 \<and>
               fmlookup fs1 (temp_name env original_filename) = fmlookup fs original_filename \<and>
               (temp_name env original_filename \<noteq> original_filename \<longrightarrow>
                  fmlookup fs1 original_filename = None) \<and>
               last (snd (snd (retry_failed_file env fs original_filename))) = LogFatal
          else fmlookup (fst (snd (retry_failed_file env fs original_filename))) original_filename =
                 fmlookup fs original_filename \<and>
               (temp_name env original_filename \<noteq> original_filename \<longrightarrow>
                  fmlookup (fst (snd (retry_failed_file env fs original_filename)))
                    (temp_name env original_filename) = None) \<and>
               (\<forall>p. p \<noteq> temp_name env original_filename \<longrightarrow>
                  fmlookup (fst (snd (retry_failed_file env fs original_filename))) p =
                    fmlookup fs p) \<and>
               last (snd (snd (retry_failed_file env fs original_filename))) =
                 LogRestored original_filename)"
proof -
  let ?t = "temp_name env original_filename"
  from assms(2) obtain c where c: "fmlookup fs original_filename = Some c"
    and fs1: "fs1 = fmupd ?t c (fmdrop original_filename fs)"
    by (auto simp: os_rename_Inr)
  have t: "fmlookup fs1 ?t = Some c"
    by (simp add: fs1)
  note run = retry_failed_file_isolated [OF assms]
  show ?thesis
  proof (cases "rename_denied env fs1 ?t original_filename")
    case True
    with t have "os_rename env fs1 ?t original_filename = Inl OSError"
      by (simp add: os_rename_def)
    with run have "retry_failed_file env fs original_filename =
        (False, fs1,
         [LogRetry original_filename, OsRename original_filename ?t, LogTempRenamed ?t] @
         [LogRetryFailed original_filename, OsRename ?t original_filename, LogFatal])"
      by (simp add: rollback_def)
    with True c t show ?thesis
      by (simp add: fs1)
  next
    case False
    let ?fs2 = "fmupd original_filename c (fmdrop ?t fs1)"
    from False t have "os_rename env fs1 ?t original_filename = Inr ?fs2"
      by (simp add: os_rename_def)
    with run have r: "retry_failed_file env fs original_filename =
        (False, ?fs2,
         [LogRetry original_filename, OsRename original_filename ?t, LogTempRenamed ?t] @
         [LogRetryFailed original_filename, OsRename ?t original_filename,
          LogRestored original_filename])"
      by (simp add: rollback_def)
    have "\<forall>p. p \<noteq> ?t \<longrightarrow> fmlookup ?fs2 p = fmlookup fs p"
      by (simp add: fs1 c)
    with False c show ?thesis
      by (simp add: r)
  qed
qed

theorem recovery_rollback_witness:
  "client_ready sample_env \<and>
   os_rename sample_env cat_dir (ustr ''cat.jpg'') (ustr ''temp_retry_ab12cd34.jpg'') =
     Inr (fmupd (ustr ''temp_retry_ab12cd34.jpg'') 7 (fmdrop (ustr ''cat.jpg'') cat_dir)) \<and>
   request_title sample_env
     (fmupd (ustr ''temp_retry_ab12cd34.jpg'') 7 (fmdrop (ustr ''cat.jpg'') cat_dir))
     (ustr ''temp_retry_ab12cd34.jpg'') = None \<and>
   fst (retry_failed_file sample_env cat_dir (ustr ''cat.jpg'')) = False \<and>
   fmlookup (fst (snd (retry_failed_file sample_env cat_dir (ustr ''cat.jpg'')))) (ustr ''cat.jpg'') =
     Some 7"
proof -
  let ?t = "ustr ''temp_retry_ab12cd34.jpg''"
  let ?fs1 = "fmupd ?t 7 (fmdrop (ustr ''cat.jpg'') cat_dir)"
  have tn: "temp_name sample_env (ustr ''cat.jpg'') = ?t"
    by (simp add: temp_name_def sample_env_def splitext_ext_def ustr_def)
  have ready: "client_ready sample_env"
    by (simp add: sample_env_def)
  have iso: "os_rename sample_env cat_dir (ustr ''cat.jpg'') ?t = Inr ?fs1"
    by (simp add: os_rename_def cat_dir_def sample_env_def)
  have req: "request_title sample_env ?fs1 ?t = None"
    by (simp add: request_title_def sample_env_def)
  have allowed: "\<not> rename_denied sample_env ?fs1 ?t (ustr ''cat.jpg'')"
    by (simp add: sample_env_def)
  have before: "fmlookup cat_dir (ustr ''cat.jpg'') = Some 7"
    by (simp add: cat_dir_def)
  note t = recovery_rollback [of sample_env cat_dir "ustr ''cat.jpg''" ?fs1, unfolded tn,
      OF ready iso req]
  from t have f: "fst (retry_failed_file sample_env cat_dir (ustr ''cat.jpg'')) = False"
    by (elim conjE)
  from t allowed have
    "fmlookup (fst (snd (retry_failed_file sample_env cat_dir (ustr ''cat.jpg'')))) (ustr ''cat.jpg'') =
       fmlookup cat_dir (ustr ''cat.jpg'')"
    by (simp only: if_False)
  with before have
    "fmlookup (fst (snd (retry_failed_file sample_env cat_dir (ustr ''cat.jpg'')))) (ustr ''cat.jpg'') =
       Some 7"
    by (simp only:)
  with ready iso req f show ?thesis
    by (intro conjI)
qed

lemma os_rename_oracles:
  "os_rename (env\<lparr>generate_single := g, image_open := io\<rparr>) fs src dst = os_rename env fs src dst"
  by (cases "fmlookup fs src") (simp_all add: os_rename_def)

lemma temp_name_oracles:
  "temp_name (env\<lparr>generate_single := g, image_open := io\<rparr>) f = temp_name env f"
  by (simp add: temp_name_def)

lemma rollback_oracles:
  "rollback (env\<lparr>generate_single := g, image_open := io\<rparr>) fs t f tr = rollback env fs t f tr"
  by (simp add: rollback_def os_rename_oracles)

lemma rollback_fails: "fst (rollback env fs t f tr) = False"
  by (simp add: rollback_def split: sum.splits)

lemma rollback_attempts: "OsRename t f \<in> set (snd (snd (rollback env fs t f tr)))"
  by (simp add: rollback_def split: sum.splits)

lemma rollback_no_source:
  "fmlookup fs t = None \<Longrightarrow>
     rollback env fs t f tr = (False, fs, tr @ [LogRetryFailed f, OsRename t f, LogFatal])"
  by (simp add: rollback_def os_rename_def)

text \<open>
  Claim C9, as the code has it. The isolating rename has raised. Then the flow returns
  \<open>False\<close> and its result does not depend on the image or on the remote model, which
  it does not reach. The handler is the one of every failure, so it still attempts the
  rename from the temporary name to the original one. When no file has the temporary
  name, that attempt raises, the directory is what it was, and the last log line is the
  fatal one.
\<close>

theorem isolating_failure:
  assumes "client_ready env"
    and "os_rename env fs original_filename (temp_name env original_filename) = Inl e"
  shows "fst (retry_failed_file env fs original_filename) = False \<and>
         retry_failed_file (env\<lparr>generate_single := g, image_open := io\<rparr>) fs original_filename =
           retry_failed_file env fs original_filename \<and>
         OsRename (temp_name env original_filename) original_filename
           \<in> set (snd (snd (retry_failed_file env fs original_filename))) \<and>
         (fmlookup fs (temp_name env original_filename) = None \<longrightarrow>
            retry_failed_file env fs original_filename =
              (False, fs,
               [LogRetry original_filename,
                OsRename original_filename (temp_name env original_filename),
                LogRetryFailed original_filename,
                OsRename (temp_name env original_filename) original_filename,
                LogFatal]))"
proof -
  let ?env' = "env\<lparr>generate_single := g, image_open := io\<rparr>"
  note run = retry_failed_file_not_isolated [OF assms]
  have "client_ready ?env'"
    using assms(1) by simp
  moreover have "os_rename ?env' fs original_filename (temp_name ?env' original_filename) = Inl e"
    using assms(2) by (simp add: os_rename_oracles temp_name_oracles)
  ultimately have "retry_failed_file ?env' fs original_filename =
      rollback ?env' fs (temp_name ?env' original_filename) original_filename
        [LogRetry original_filename, OsRename original_filename (temp_name ?env' original_filename)]"
    by (rule retry_failed_file_not_isolated)
  then have same: "retry_failed_file ?env' fs original_filename =
      retry_failed_file env fs original_filename"
    by (simp add: run rollback_oracles temp_name_oracles)
  show ?thesis
    by (simp add: same) (simp add: run rollback_fails rollback_attempts rollback_no_source)
qed

theorem isolating_failure_witness:
  "client_ready (sample_env\<lparr>rename_denied := \<lambda>fs src dst. src = ustr ''cat.jpg''\<rparr>) \<and>
   os_rename (sample_env\<lparr>rename_denied := \<lambda>fs src dst. src = ustr ''cat.jpg''\<rparr>) cat_dir
     (ustr ''cat.jpg'') (ustr ''temp_retry_ab12cd34.jpg'') = Inl OSError \<and>
   fst (retry_failed_file (sample_env\<lparr>rename_denied := \<lambda>fs src dst. src = ustr ''cat.jpg''\<rparr>)
          cat_dir (ustr ''cat.jpg'')) = False"
proof -
  let ?env = "sample_env\<lparr>rename_denied := \<lambda>fs src dst. src = ustr ''cat.jpg''\<rparr>"
  let ?t = "ustr ''temp_retry_ab12cd34.jpg''"
  have tn: "temp_name ?env (ustr ''cat.jpg'') = ?t"
    by (simp add: temp_name_def sample_env_def splitext_ext_def ustr_def)
  have ready: "client_ready ?env"
    by (simp add: sample_env_def)
  have iso: "os_rename ?env cat_dir (ustr ''cat.jpg'') ?t = Inl OSError"
    by (simp add: os_rename_def cat_dir_def sample_env_def)
  from isolating_failure [of ?env cat_dir "ustr ''cat.jpg''" OSError, unfolded tn, OF ready iso]
  have "fst (retry_failed_file ?env cat_dir (ustr ''cat.jpg'')) = False"
    by (rule conjunct1)
  with ready iso show ?thesis
    by (intro conjI)
qed

text \<open>
  Claim C9, as stated, fails. Where the system refuses to rename \<open>cat.jpg\<close>, the flow
  goes on to attempt the rename from the temporary name back to \<open>cat.jpg\<close> and logs
  the fatal line. Where \<open>cat.jpg\<close> is gone and a file has the temporary name, that
  attempt succeeds and the directory changes.
\<close>

theorem isolating_failure_counterexample:
  "retry_failed_file (sample_env\<lparr>rename_denied := \<lambda>fs src dst. src = ustr ''cat.jpg''\<rparr>)
     cat_dir (ustr ''cat.jpg'') =
     (False, cat_dir,
      [LogRetry (ustr ''cat.jpg''),
       OsRename (ustr ''cat.jpg'') (ustr ''temp_retry_ab12cd34.jpg''),
       LogRetryFailed (ustr ''cat.jpg''),
       OsRename (ustr ''temp_retry_ab12cd34.jpg'') (ustr ''cat.jpg''),
       LogFatal]) \<and>
   fmlookup (fmupd (ustr ''temp_retry_ab12cd34.jpg'') 5 fmempty) (ustr ''cat.jpg'') = None \<and>
   fmlookup
     (fst (snd (retry_failed_file sample_env (fmupd (ustr ''temp_retry_ab12cd34.jpg'') 5 fmempty)
                  (ustr ''cat.jpg''))))
     (ustr ''cat.jpg'') = Some 5"
  by (simp add: retry_failed_file_def rollback_def os_rename_def splitext_ext_def cat_dir_def
        sample_env_def ustr_def Let_def)

section \<open>A title that sanitises to the empty string\<close>






section \<open>Properties of the recovery loop\<close>

lemma retry_loop_calls:
  "map fst (snd (snd (retry_loop env names (fs, n, calls)))) = map fst calls @ names"
proof (induction names arbitrary: fs n calls)
  case Nil
  show ?case by simp
next
  case (Cons f names)
  obtain ok fs' tr where r: "retry_failed_file env fs f = (ok, fs', tr)"
    by (cases "retry_failed_file env fs f") auto
  show ?case
    by (simp add: r Cons.IH)
qed

lemma retry_loop_count:
  "fst (snd (retry_loop env names (fs, n, calls))) +
     int (length (filter (\<lambda>c. \<not> snd c) (snd (snd (retry_loop env names (fs, n, calls)))))) =
   n + int (length (filter (\<lambda>c. \<not> snd c) calls)) + int (length names)"
proof (induction names arbitrary: fs n calls)
  case Nil
  show ?case by simp
next
  case (Cons f names)
  obtain ok fs' tr where r: "retry_failed_file env fs f = (ok, fs', tr)"
    by (cases "retry_failed_file env fs f") auto
  show ?case
    by (cases ok) (simp_all add: r Cons.IH)
qed

lemma summary_fields:
  "failed_accumulated (rename_images_in_directory env fs) =
     failed_files_for_retry
       (batch_loop env (filter (eligible env) (listdir env)) 0
          \<lparr>dir = fs, batch_processed_count = 0, failed_files_for_retry = []\<rparr>)"
  "unique_failed_files (rename_images_in_directory env fs) =
     sort (remdups (failed_accumulated (rename_images_in_directory env fs)))"
  "retry_calls (rename_images_in_directory env fs) =
     snd (snd (retry_loop env (unique_failed_files (rename_images_in_directory env fs))
                 (dir (batch_loop env (filter (eligible env) (listdir env)) 0
                         \<lparr>dir = fs, batch_processed_count = 0, failed_files_for_retry = []\<rparr>),
                  0, [])))"
  "retry_count (rename_images_in_directory env fs) =
     fst (snd (retry_loop env (unique_failed_files (rename_images_in_directory env fs))
                 (dir (batch_loop env (filter (eligible env) (listdir env)) 0
                         \<lparr>dir = fs, batch_processed_count = 0, failed_files_for_retry = []\<rparr>),
                  0, [])))"
  "batch_count (rename_images_in_directory env fs) =
     batch_processed_count
       (batch_loop env (filter (eligible env) (listdir env)) 0
          \<lparr>dir = fs, batch_processed_count = 0, failed_files_for_retry = []\<rparr>)"
  "total_eligible_files (rename_images_in_directory env fs) =
     int (length (filter (eligible env) (listdir env)))"
  "total_renamed (rename_images_in_directory env fs) =
     batch_count (rename_images_in_directory env fs) + retry_count (rename_images_in_directory env fs)"
  "total_failed (rename_images_in_directory env fs) =
     total_eligible_files (rename_images_in_directory env fs) -
     total_renamed (rename_images_in_directory env fs)"
  by (simp_all add: rename_images_in_directory_def Let_def split_def)

text \<open>
  The directory after the recovery flow has been applied to the names of a list, one
  after the other, and the directory the batch loop leaves.
\<close>

definition recovery_dir :: "'c env \<Rightarrow> 'c directory \<Rightarrow> ustring list \<Rightarrow> 'c directory" where
  "recovery_dir env d names = foldl (\<lambda>d f. fst (snd (retry_failed_file env d f))) d names"

definition dir_after_batches :: "'c env \<Rightarrow> 'c directory \<Rightarrow> 'c directory" where
  "dir_after_batches env fs =
     dir (batch_loop env (filter (eligible env) (listdir env)) 0
            \<lparr>dir = fs, batch_processed_count = 0, failed_files_for_retry = []\<rparr>)"

lemma recovery_dir_Nil: "recovery_dir env d [] = d"
  by (simp add: recovery_dir_def)

lemma recovery_dir_Cons:
  "recovery_dir env d (f # names) = recovery_dir env (fst (snd (retry_failed_file env d f))) names"
  by (simp add: recovery_dir_def)

lemma retry_loop_fold:
  "fst (retry_loop env names (d, n, calls)) = recovery_dir env d names \<and>
   snd (snd (retry_loop env names (d, n, calls))) =
     calls @ map (\<lambda>i. (names ! i,
                        fst (retry_failed_file env (recovery_dir env d (take i names)) (names ! i))))
               [0..<length names]"
proof (induction names arbitrary: d n calls)
  case Nil
  show ?case by (simp add: recovery_dir_Nil)
next
  case (Cons f names)
  obtain ok d' tr where r: "retry_failed_file env d f = (ok, d', tr)"
    by (cases "retry_failed_file env d f") auto
  have run: "retry_loop env (f # names) (d, n, calls) =
               retry_loop env names (d', (if ok then n + 1 else n), calls @ [(f, ok)])"
    by (simp add: r)
  have shift: "map (\<lambda>i. ((f # names) ! i,
                  fst (retry_failed_file env (recovery_dir env d (take i (f # names)))
                         ((f # names) ! i))))
                 [0..<length (f # names)] =
               (f, ok) #
               map (\<lambda>i. (names ! i,
                      fst (retry_failed_file env (recovery_dir env d' (take i names)) (names ! i))))
                 [0..<length names]"
    by (simp add: map_upt_Suc recovery_dir_Nil recovery_dir_Cons r del: upt_Suc)
  show ?case
    unfolding run shift using Cons.IH [of d' "if ok then n + 1 else n" "calls @ [(f, ok)]"]
    by (simp add: recovery_dir_Cons r)
qed

lemma retry_loop_true_count:
  "fst (snd (retry_loop env names (d, n, calls))) -
     int (length (filter snd (snd (snd (retry_loop env names (d, n, calls)))))) =
   n - int (length (filter snd calls))"
proof (induction names arbitrary: d n calls)
  case Nil
  show ?case by simp
next
  case (Cons f names)
  obtain ok d' tr where r: "retry_failed_file env d f = (ok, d', tr)"
    by (cases "retry_failed_file env d f") auto
  show ?case
    by (cases ok) (simp_all add: r Cons.IH)
qed

lemma summary_recovery:
  "final_dir (rename_images_in_directory env fs) =
     fst (retry_loop env (unique_failed_files (rename_images_in_directory env fs))
            (dir_after_batches env fs, 0, []))"
  "retry_calls (rename_images_in_directory env fs) =
     snd (snd (retry_loop env (unique_failed_files (rename_images_in_directory env fs))
                 (dir_after_batches env fs, 0, [])))"
  "retry_count (rename_images_in_directory env fs) =
     fst (snd (retry_loop env (unique_failed_files (rename_images_in_directory env fs))
                 (dir_after_batches env fs, 0, [])))"
  by (simp_all add: rename_images_in_directory_def dir_after_batches_def Let_def split_def)

text \<open>
  Claim C8, as the code has it. The list the recovery loop goes through holds the
  names that failed in the batch loop, each once, in ascending order of the strings
  (\<open>sorted(list(set(...)))\<close>). The recovery flow is applied to each name of that
  list once, in that order: the result recorded for the name at position \<open>i\<close> is what
  \<open>retry_failed_file\<close> returns for it in the directory left by the batch loop and
  the flows of the names before it, the final directory is the one the last of these
  flows leaves, and the count of the recovery loop is the number of flows that
  returned \<open>True\<close>.
\<close>

theorem failure_set_sorted_unique:
  "set (unique_failed_files (rename_images_in_directory env fs)) =
     set (failed_accumulated (rename_images_in_directory env fs)) \<and>
   distinct (unique_failed_files (rename_images_in_directory env fs)) \<and>
   sorted (unique_failed_files (rename_images_in_directory env fs)) \<and>
   map fst (retry_calls (rename_images_in_directory env fs)) =
     unique_failed_files (rename_images_in_directory env fs) \<and>
   retry_calls (rename_images_in_directory env fs) =
     map (\<lambda>i. (unique_failed_files (rename_images_in_directory env fs) ! i,
               fst (retry_failed_file env
                      (recovery_dir env (dir_after_batches env fs)
                         (take i (unique_failed_files (rename_images_in_directory env fs))))
                      (unique_failed_files (rename_images_in_directory env fs) ! i))))
       [0..<length (unique_failed_files (rename_images_in_directory env fs))] \<and>
   final_dir (rename_images_in_directory env fs) =
     recovery_dir env (dir_after_batches env fs)
       (unique_failed_files (rename_images_in_directory env fs)) \<and>
   retry_count (rename_images_in_directory env fs) =
     int (length (filter snd (retry_calls (rename_images_in_directory env fs))))"
proof -
  let ?r = "rename_images_in_directory env fs"
  let ?U = "unique_failed_files ?r"
  note fold = retry_loop_fold [of env ?U "dir_after_batches env fs" 0 "[]"]
  have names: "map fst (retry_calls ?r) = ?U"
    by (simp add: summary_fields(3) retry_loop_calls)
  have sorted: "set ?U = set (failed_accumulated ?r) \<and> distinct ?U \<and> sorted ?U"
    by (simp add: summary_fields(2))
  from fold have calls: "retry_calls ?r =
     map (\<lambda>i. (?U ! i,
               fst (retry_failed_file env (recovery_dir env (dir_after_batches env fs) (take i ?U))
                      (?U ! i))))
       [0..<length ?U]"
    by (simp only: summary_recovery(2)) simp
  from fold have final: "final_dir ?r = recovery_dir env (dir_after_batches env fs) ?U"
    by (simp only: summary_recovery(1))
  have count: "retry_count ?r = int (length (filter snd (retry_calls ?r)))"
    using retry_loop_true_count [of env ?U "dir_after_batches env fs" 0 "[]"]
    by (simp only: summary_recovery(2,3)) simp
  from sorted names calls final count show ?thesis
    by (intro conjI) simp_all
qed

definition two_files_env :: "nat env" where
  "two_files_env = sample_env\<lparr>listdir := [ustr ''b.jpg'', ustr ''a.jpg'']\<rparr>"

definition two_files_dir :: "nat directory" where
  "two_files_dir = fmupd (ustr ''b.jpg'') 2 (fmupd (ustr ''a.jpg'') 1 fmempty)"

lemmas eligible_defs =
  eligible_def endswith_def IMAGE_EXTENSIONS_def PROCESSED_SUFFIX_def ascii_lower_def

lemma two_files_eligible:
  "filter (eligible two_files_env) (listdir two_files_env) = [ustr ''b.jpg'', ustr ''a.jpg'']"
  by (simp add: two_files_env_def sample_env_def eligible_defs ustr_def)

lemma two_files_batch_loop:
  "batch_loop two_files_env [ustr ''b.jpg'', ustr ''a.jpg''] 0
     \<lparr>dir = two_files_dir, batch_processed_count = 0, failed_files_for_retry = []\<rparr> =
   \<lparr>dir = two_files_dir, batch_processed_count = 0,
    failed_files_for_retry = [ustr ''b.jpg'', ustr ''a.jpg'']\<rparr>"
  by (simp add: batch_loop.simps BATCH_SIZE_def process_batch_def two_files_dir_def
        two_files_env_def sample_env_def get_batch_info_from_images_def attempt_loop.simps
        MAX_RETRIES_def ustr_def)

lemma two_files_failed:
  "failed_accumulated (rename_images_in_directory two_files_env two_files_dir) =
     [ustr ''b.jpg'', ustr ''a.jpg'']"
  by (simp only: summary_fields(1) two_files_eligible two_files_batch_loop) simp

lemma two_files_sorted:
  "sort (remdups [ustr ''b.jpg'', ustr ''a.jpg'']) = [ustr ''a.jpg'', ustr ''b.jpg'']"
  by (simp add: ustr_def)

lemma two_files_unique:
  "unique_failed_files (rename_images_in_directory two_files_env two_files_dir) =
     [ustr ''a.jpg'', ustr ''b.jpg'']"
  by (simp only: summary_fields(2) two_files_failed two_files_sorted)

theorem failure_set_sorted_unique_witness:
  "failed_accumulated (rename_images_in_directory two_files_env two_files_dir) =
     [ustr ''b.jpg'', ustr ''a.jpg''] \<and>
   map fst (retry_calls (rename_images_in_directory two_files_env two_files_dir)) =
     [ustr ''a.jpg'', ustr ''b.jpg'']"
proof -
  from failure_set_sorted_unique [of two_files_env two_files_dir]
  have "map fst (retry_calls (rename_images_in_directory two_files_env two_files_dir)) =
          unique_failed_files (rename_images_in_directory two_files_env two_files_dir)"
    by (elim conjE)
  then have "map fst (retry_calls (rename_images_in_directory two_files_env two_files_dir)) =
               [ustr ''a.jpg'', ustr ''b.jpg'']"
    by (simp only: two_files_unique)
  with two_files_failed show ?thesis
    by (intro conjI)
qed

text \<open>
  Claim C8, as stated, fails: the directory lists \<open>b.jpg\<close> before \<open>a.jpg\<close>, the
  batch fails and marks them in that order, and the recovery loop takes \<open>a.jpg\<close>
  first.
\<close>

theorem failure_set_order_counterexample:
  "failed_accumulated (rename_images_in_directory two_files_env two_files_dir) =
     [ustr ''b.jpg'', ustr ''a.jpg''] \<and>
   unique_failed_files (rename_images_in_directory two_files_env two_files_dir) =
     [ustr ''a.jpg'', ustr ''b.jpg''] \<and>
   unique_failed_files (rename_images_in_directory two_files_env two_files_dir) \<noteq>
     remdups (failed_accumulated (rename_images_in_directory two_files_env two_files_dir))"
  by (simp only: two_files_failed two_files_unique) (simp add: ustr_def)

section \<open>Properties of one batch\<close>

lemma process_results_dir_count:
  assumes "dir st = dir st'" and "batch_processed_count st = batch_processed_count st'"
    and "map_of result_map f = None"
  shows "\<exists>A A'.
           failed_files_for_retry (process_results env result_map image_batch st) =
             failed_files_for_retry st @ A \<and>
           failed_files_for_retry
             (process_results env result_map (filter (\<lambda>p. fst p \<noteq> f) image_batch) st') =
             failed_files_for_retry st' @ A' \<and>
           set A = (if f \<in> fst ` set image_batch then insert f (set A') else set A') \<and>
           dir (process_results env result_map image_batch st) =
             dir (process_results env result_map (filter (\<lambda>p. fst p \<noteq> f) image_batch) st') \<and>
           batch_processed_count (process_results env result_map image_batch st) =
             batch_processed_count
               (process_results env result_map (filter (\<lambda>p. fst p \<noteq> f) image_batch) st')"
  using assms(1,2)
proof (induction image_batch arbitrary: st st')
  case Nil
  then show ?case by simp
next
  case (Cons p rest)
  obtain g img where p: "p = (g, img)"
    by (cases p) auto
  let ?mark = "\<lambda>s :: 'a run. s\<lparr>failed_files_for_retry := failed_files_for_retry s @ [g]\<rparr>"
  show ?case
  proof (cases "g = f")
    case True
    have "dir (?mark st) = dir st'" "batch_processed_count (?mark st) = batch_processed_count st'"
      using Cons.prems by simp_all
    from Cons.IH [OF this] obtain A A' where
      "failed_files_for_retry (process_results env result_map rest (?mark st)) =
         failed_files_for_retry (?mark st) @ A"
      "failed_files_for_retry
         (process_results env result_map (filter (\<lambda>p. fst p \<noteq> f) rest) st') =
         failed_files_for_retry st' @ A'"
      "set A = (if f \<in> fst ` set rest then insert f (set A') else set A')"
      "dir (process_results env result_map rest (?mark st)) =
         dir (process_results env result_map (filter (\<lambda>p. fst p \<noteq> f) rest) st')"
      "batch_processed_count (process_results env result_map rest (?mark st)) =
         batch_processed_count
           (process_results env result_map (filter (\<lambda>p. fst p \<noteq> f) rest) st')"
      by blast
    with True assms(3) show ?thesis
      by (intro exI [of _ "g # A"] exI [of _ A']) (auto simp: p)
  next
    case False
    show ?thesis
    proof (cases "map_of result_map g")
      case None
      have "dir (?mark st) = dir (?mark st')"
        "batch_processed_count (?mark st) = batch_processed_count (?mark st')"
        using Cons.prems by simp_all
      from Cons.IH [OF this] obtain A A' where
        "failed_files_for_retry (process_results env result_map rest (?mark st)) =
           failed_files_for_retry (?mark st) @ A"
        "failed_files_for_retry
           (process_results env result_map (filter (\<lambda>p. fst p \<noteq> f) rest) (?mark st')) =
           failed_files_for_retry (?mark st') @ A'"
        "set A = (if f \<in> fst ` set rest then insert f (set A') else set A')"
        "dir (process_results env result_map rest (?mark st)) =
           dir (process_results env result_map (filter (\<lambda>p. fst p \<noteq> f) rest) (?mark st'))"
        "batch_processed_count (process_results env result_map rest (?mark st)) =
           batch_processed_count
             (process_results env result_map (filter (\<lambda>p. fst p \<noteq> f) rest) (?mark st'))"
        by blast
      with False None show ?thesis
        by (intro exI [of _ "g # A"] exI [of _ "g # A'"]) (auto simp: p)
    next
      case (Some t)
      obtain n k r where r: "rename_with_title env (dir st) g (splitext_ext g) t = (n, k, r)"
        by (cases "rename_with_title env (dir st) g (splitext_ext g) t") auto
      then have r': "rename_with_title env (dir st') g (splitext_ext g) t = (n, k, r)"
        using Cons.prems by simp
      show ?thesis
      proof (cases r)
        case (Inl e)
        have "dir (?mark st) = dir (?mark st')"
          "batch_processed_count (?mark st) = batch_processed_count (?mark st')"
          using Cons.prems by simp_all
        from Cons.IH [OF this] obtain A A' where
          "failed_files_for_retry (process_results env result_map rest (?mark st)) =
             failed_files_for_retry (?mark st) @ A"
          "failed_files_for_retry
             (process_results env result_map (filter (\<lambda>p. fst p \<noteq> f) rest) (?mark st')) =
             failed_files_for_retry (?mark st') @ A'"
          "set A = (if f \<in> fst ` set rest then insert f (set A') else set A')"
          "dir (process_results env result_map rest (?mark st)) =
             dir (process_results env result_map (filter (\<lambda>p. fst p \<noteq> f) rest) (?mark st'))"
          "batch_processed_count (process_results env result_map rest (?mark st)) =
             batch_processed_count
               (process_results env result_map (filter (\<lambda>p. fst p \<noteq> f) rest) (?mark st'))"
          by blast
        with False Some Inl r r' show ?thesis
          by (intro exI [of _ "g # A"] exI [of _ "g # A'"]) (auto simp: p)
      next
        case (Inr fs')
        let ?done = "\<lambda>s :: 'a run.
          s\<lparr>dir := fs', batch_processed_count := batch_processed_count s + 1\<rparr>"
        have "dir (?done st) = dir (?done st')"
          "batch_processed_count (?done st) = batch_processed_count (?done st')"
          using Cons.prems by simp_all
        from Cons.IH [OF this] obtain A A' where
          "failed_files_for_retry (process_results env result_map rest (?done st)) =
             failed_files_for_retry (?done st) @ A"
          "failed_files_for_retry
             (process_results env result_map (filter (\<lambda>p. fst p \<noteq> f) rest) (?done st')) =
             failed_files_for_retry (?done st') @ A'"
          "set A = (if f \<in> fst ` set rest then insert f (set A') else set A')"
          "dir (process_results env result_map rest (?done st)) =
             dir (process_results env result_map (filter (\<lambda>p. fst p \<noteq> f) rest) (?done st'))"
          "batch_processed_count (process_results env result_map rest (?done st)) =
             batch_processed_count
               (process_results env result_map (filter (\<lambda>p. fst p \<noteq> f) rest) (?done st'))"
          by blast
        with False Some Inr r r' show ?thesis
          by (intro exI [of _ A] exI [of _ A']) (auto simp: p)
      qed
    qed
  qed
qed

definition loads :: "'c env \<Rightarrow> 'c directory \<Rightarrow> ustring \<Rightarrow> bool" where
  "loads env fs f = (case fmlookup fs f of None \<Rightarrow> False | Some c \<Rightarrow> image_open env c)"

lemma load_images_split:
  "load_images env fs files (image_batch, failed) = (image_batch', failed') \<Longrightarrow>
     map fst image_batch' = map fst image_batch @ filter (loads env fs) files \<and>
     failed' = failed @ filter (\<lambda>f. \<not> loads env fs f) files"
proof (induction files arbitrary: image_batch failed)
  case Nil
  then show ?case by simp
next
  case (Cons f files)
  show ?case
  proof (cases "fmlookup fs f")
    case None
    with Cons.prems have "load_images env fs files (image_batch, failed @ [f]) = (image_batch', failed')"
      by simp
    from Cons.IH [OF this] None show ?thesis
      by (simp add: loads_def)
  next
    case (Some c)
    show ?thesis
    proof (cases "image_open env c")
      case True
      with Cons.prems Some
      have "load_images env fs files (image_batch @ [(f, c)], failed) = (image_batch', failed')"
        by simp
      from Cons.IH [OF this] Some True show ?thesis
        by (simp add: loads_def)
    next
      case False
      with Cons.prems Some
      have "load_images env fs files (image_batch, failed @ [f]) = (image_batch', failed')"
        by simp
      from Cons.IH [OF this] Some False show ?thesis
        by (simp add: loads_def)
    qed
  qed
qed

lemma process_batch_described:
  assumes "load_images env (dir st) files ([], failed_files_for_retry st) = (image_batch, failed)"
    and "image_batch \<noteq> []"
    and "fst (get_batch_info_from_images env image_batch) = Some result_map"
    and "result_map \<noteq> []"
  shows "process_batch env files st =
           process_results env result_map image_batch (st\<lparr>failed_files_for_retry := failed\<rparr>)"
  using assms by (simp add: process_batch_def)

text \<open>
  The directory in which the loop of \<open>process_results\<close> finds the file at position
  \<open>i\<close> of the batch, whether the rename of that file raises there, and whether the
  loop marks that file as failed.
\<close>

definition dir_before ::
  "'c env \<Rightarrow> (ustring \<times> ustring) list \<Rightarrow> (ustring \<times> 'c) list \<Rightarrow> 'c run \<Rightarrow> nat \<Rightarrow>
     'c directory" where
  "dir_before env result_map image_batch st i =
     dir (process_results env result_map (take i image_batch) st)"

definition rename_raises ::
  "'c env \<Rightarrow> (ustring \<times> ustring) list \<Rightarrow> (ustring \<times> 'c) list \<Rightarrow> 'c run \<Rightarrow> nat \<Rightarrow> bool" where
  "rename_raises env result_map image_batch st i \<longleftrightarrow>
     (case map_of result_map (fst (image_batch ! i)) of
        None \<Rightarrow> False
      | Some short_title \<Rightarrow>
          isl (snd (snd (rename_with_title env (dir_before env result_map image_batch st i)
                           (fst (image_batch ! i)) (splitext_ext (fst (image_batch ! i)))
                           short_title))))"

definition marked ::
  "'c env \<Rightarrow> (ustring \<times> ustring) list \<Rightarrow> (ustring \<times> 'c) list \<Rightarrow> 'c run \<Rightarrow> nat \<Rightarrow> bool" where
  "marked env result_map image_batch st i \<longleftrightarrow>
     map_of result_map (fst (image_batch ! i)) = None \<or>
     rename_raises env result_map image_batch st i"

lemma process_results_step:
  "process_results env result_map (p # rest) st =
     process_results env result_map rest (process_results env result_map [p] st)"
  by (cases p) (simp split: option.splits prod.splits sum.splits)

lemma process_results_single:
  "failed_files_for_retry (process_results env result_map [p] st) =
     failed_files_for_retry st @ (if marked env result_map (p # rest) st 0 then [fst p] else [])"
proof (cases p)
  case (Pair g img)
  show ?thesis
  proof (cases "map_of result_map g")
    case None
    then show ?thesis
      by (simp add: Pair marked_def)
  next
    case (Some t)
    obtain n k r where r: "rename_with_title env (dir st) g (splitext_ext g) t = (n, k, r)"
      by (cases "rename_with_title env (dir st) g (splitext_ext g) t") auto
    with Some show ?thesis
      by (cases r) (simp_all add: Pair marked_def rename_raises_def dir_before_def)
  qed
qed

lemma dir_before_Suc:
  "dir_before env result_map (p # rest) st (Suc i) =
     dir_before env result_map rest (process_results env result_map [p] st) i"
  by (simp add: dir_before_def process_results_step [of env result_map p "take i rest" st])

lemma marked_Suc:
  "marked env result_map (p # rest) st (Suc i) =
     marked env result_map rest (process_results env result_map [p] st) i"
  by (simp add: marked_def rename_raises_def dir_before_Suc split: option.splits)

lemma process_results_marks:
  "failed_files_for_retry (process_results env result_map image_batch st) =
     failed_files_for_retry st @
     map (\<lambda>i. fst (image_batch ! i))
       (filter (marked env result_map image_batch st) [0..<length image_batch])"
proof (induction image_batch arbitrary: st)
  case Nil
  show ?case by simp
next
  case (Cons p rest)
  let ?st' = "process_results env result_map [p] st"
  have idx: "[0..<length (p # rest)] = 0 # map Suc [0..<length rest]"
    by (simp add: upt_conv_Cons map_Suc_upt del: upt_Suc)
  have sel: "map (\<lambda>i. fst ((p # rest) ! i))
               (filter (marked env result_map (p # rest) st) [0..<length (p # rest)]) =
             (if marked env result_map (p # rest) st 0 then [fst p] else []) @
             map (\<lambda>i. fst (rest ! i))
               (filter (marked env result_map rest ?st') [0..<length rest])"
    unfolding idx by (simp add: filter_map comp_def marked_Suc)
  have "failed_files_for_retry (process_results env result_map (p # rest) st) =
          failed_files_for_retry ?st' @
          map (\<lambda>i. fst (rest ! i)) (filter (marked env result_map rest ?st') [0..<length rest])"
    by (simp only: process_results_step [of env result_map p rest st] Cons.IH [of ?st'])
  then show ?case
    by (simp only: sel process_results_single [of env result_map p st rest] append_assoc)
qed

lemma process_results_empty_map:
  "process_results env [] image_batch st =
     st\<lparr>failed_files_for_retry := failed_files_for_retry st @ map fst image_batch\<rparr>"
proof (induction image_batch arbitrary: st)
  case Nil
  show ?case by simp
next
  case (Cons p rest)
  show ?case
    by (cases p) (simp add: Cons.IH)
qed

lemma process_batch_as_results:
  assumes "load_images env (dir st) files ([], failed_files_for_retry st) = (image_batch, failed)"
    and "image_batch \<noteq> []"
    and "fst (get_batch_info_from_images env image_batch) = Some result_map"
  shows "dir (process_batch env files st) =
           dir (process_results env result_map image_batch (st\<lparr>failed_files_for_retry := failed\<rparr>)) \<and>
         batch_processed_count (process_batch env files st) =
           batch_processed_count
             (process_results env result_map image_batch (st\<lparr>failed_files_for_retry := failed\<rparr>)) \<and>
         set (failed_files_for_retry (process_batch env files st)) =
           set (failed_files_for_retry
                  (process_results env result_map image_batch
                     (st\<lparr>failed_files_for_retry := failed\<rparr>)))"
proof (cases "result_map = []")
  case False
  with assms show ?thesis
    by (simp add: process_batch_described)
next
  case True
  from load_images_split [OF assms(1)]
  have names: "map fst image_batch = filter (loads env (dir st)) files"
    and failed: "failed = failed_files_for_retry st @ filter (\<lambda>f. \<not> loads env (dir st) f) files"
    by simp_all
  from names have "fst ` set image_batch = set (filter (loads env (dir st)) files)"
    by (metis set_map)
  with failed have "set (failed @ files) = set failed \<union> fst ` set image_batch"
    by auto
  with assms True show ?thesis
    by (simp add: process_batch_def process_results_empty_map)
qed

definition described_env :: "nat env" where
  "described_env =
     sample_env\<lparr>generate_batch := \<lambda>image_batch retries.
                   Response [(ustr ''b.jpg'', ustr ''Red Sunset'')]\<rparr>"

definition two_files_run :: "nat run" where
  "two_files_run =
     \<lparr>dir = fmupd (ustr ''a.jpg'') 1 (fmupd (ustr ''b.jpg'') 2 fmempty),
      batch_processed_count = 0, failed_files_for_retry = []\<rparr>"

text \<open>
  Claim C5, as the code has it. The files of the batch have been opened, the
  description flow has returned a mapping, and the mapping has no entry for the file
  \<open>f\<close> of the batch. Then \<open>f\<close> is marked as failed; the directory and the count of
  renamed files are those of the same batch without \<open>f\<close>, and the names marked as
  failed are those of the batch without \<open>f\<close>, and \<open>f\<close>. The names the batch adds to
  the failure set are those of the positions the loop marks: the files the mapping
  omits and the files whose rename raises in the directory as it is when the loop
  reaches them, in the order of the batch when the mapping is not empty. So, in a batch
  that names no file twice, a described file that was not marked before is marked
  exactly when its own rename raises there.
\<close>

theorem omitted_file_marked:
  assumes "load_images env (dir st) files ([], failed_files_for_retry st) = (image_batch, failed)"
    and "fst (get_batch_info_from_images env image_batch) = Some result_map"
    and "f \<in> fst ` set image_batch"
    and "map_of result_map f = None"
  shows "f \<in> set (failed_files_for_retry (process_batch env files st)) \<and>
         dir (process_batch env files st) =
           dir (process_results env result_map (filter (\<lambda>p. fst p \<noteq> f) image_batch)
                  (st\<lparr>failed_files_for_retry := failed\<rparr>)) \<and>
         batch_processed_count (process_batch env files st) =
           batch_processed_count
             (process_results env result_map (filter (\<lambda>p. fst p \<noteq> f) image_batch)
                (st\<lparr>failed_files_for_retry := failed\<rparr>)) \<and>
         set (failed_files_for_retry (process_batch env files st)) =
           insert f
             (set (failed_files_for_retry
                     (process_results env result_map (filter (\<lambda>p. fst p \<noteq> f) image_batch)
                        (st\<lparr>failed_files_for_retry := failed\<rparr>)))) \<and>
         set (failed_files_for_retry (process_batch env files st)) =
           set failed \<union>
           {fst (image_batch ! i) | i.
              i < length image_batch \<and>
              marked env result_map image_batch (st\<lparr>failed_files_for_retry := failed\<rparr>) i} \<and>
         (result_map \<noteq> [] \<longrightarrow>
            failed_files_for_retry (process_batch env files st) =
              failed @
              map (\<lambda>i. fst (image_batch ! i))
                (filter (marked env result_map image_batch (st\<lparr>failed_files_for_retry := failed\<rparr>))
                   [0..<length image_batch])) \<and>
         (\<forall>i t. distinct (map fst image_batch) \<and> i < length image_batch \<and>
                map_of result_map (fst (image_batch ! i)) = Some t \<and>
                fst (image_batch ! i) \<notin> set failed \<longrightarrow>
                (fst (image_batch ! i) \<in> set (failed_files_for_retry (process_batch env files st))
                 \<longleftrightarrow> rename_raises env result_map image_batch
                       (st\<lparr>failed_files_for_retry := failed\<rparr>) i))"
proof -
  let ?st1 = "st\<lparr>failed_files_for_retry := failed\<rparr>"
  let ?pb = "process_batch env files st"
  let ?r = "process_results env result_map image_batch ?st1"
  let ?r' = "process_results env result_map (filter (\<lambda>p. fst p \<noteq> f) image_batch) ?st1"
  let ?M = "{fst (image_batch ! i) | i.
              i < length image_batch \<and> marked env result_map image_batch ?st1 i}"
  from assms(3) have ne: "image_batch \<noteq> []"
    by auto
  from process_batch_as_results [OF assms(1) ne assms(2)]
  have pd: "dir ?pb = dir ?r" and pc: "batch_processed_count ?pb = batch_processed_count ?r"
    and ps: "set (failed_files_for_retry ?pb) = set (failed_files_for_retry ?r)"
    by simp_all
  from process_results_dir_count [of ?st1 ?st1 result_map f env image_batch, OF refl refl assms(4)]
  obtain A A' where
    a: "failed_files_for_retry ?r = failed_files_for_retry ?st1 @ A"
    and a': "failed_files_for_retry ?r' = failed_files_for_retry ?st1 @ A'"
    and s: "set A = (if f \<in> fst ` set image_batch then insert f (set A') else set A')"
    and d: "dir ?r = dir ?r'"
    and c: "batch_processed_count ?r = batch_processed_count ?r'"
    by blast
  from s assms(3) have "set A = insert f (set A')"
    by simp
  with a a' have "set (failed_files_for_retry ?r) = insert f (set (failed_files_for_retry ?r'))"
    by simp
  with ps have sets: "set (failed_files_for_retry ?pb) = insert f (set (failed_files_for_retry ?r'))"
    by simp
  then have mem: "f \<in> set (failed_files_for_retry ?pb)"
    by simp
  have list: "failed_files_for_retry ?r =
                failed @ map (\<lambda>i. fst (image_batch ! i))
                           (filter (marked env result_map image_batch ?st1) [0..<length image_batch])"
    using process_results_marks [of env result_map image_batch ?st1] by simp
  have "set (map (\<lambda>i. fst (image_batch ! i))
               (filter (marked env result_map image_batch ?st1) [0..<length image_batch])) = ?M"
    by auto
  with list have "set (failed_files_for_retry ?r) = set failed \<union> ?M"
    by (simp only: set_append)
  with ps have marks: "set (failed_files_for_retry ?pb) = set failed \<union> ?M"
    by simp
  have order: "result_map \<noteq> [] \<longrightarrow>
                 failed_files_for_retry ?pb =
                   failed @ map (\<lambda>i. fst (image_batch ! i))
                              (filter (marked env result_map image_batch ?st1)
                                 [0..<length image_batch])"
    using list process_batch_described [OF assms(1) ne assms(2)] by simp
  have own: "\<forall>i t. distinct (map fst image_batch) \<and> i < length image_batch \<and>
                map_of result_map (fst (image_batch ! i)) = Some t \<and>
                fst (image_batch ! i) \<notin> set failed \<longrightarrow>
                (fst (image_batch ! i) \<in> set (failed_files_for_retry ?pb)
                 \<longleftrightarrow> rename_raises env result_map image_batch ?st1 i)"
  proof (intro allI impI)
    fix i t
    assume h: "distinct (map fst image_batch) \<and> i < length image_batch \<and>
               map_of result_map (fst (image_batch ! i)) = Some t \<and>
               fst (image_batch ! i) \<notin> set failed"
    have same: "j = i" if "j < length image_batch" "fst (image_batch ! j) = fst (image_batch ! i)" for j
    proof -
      from that h have "map fst image_batch ! j = map fst image_batch ! i"
        by simp
      with that h show ?thesis
        by (simp add: nth_eq_iff_index_eq del: nth_map)
    qed
    have "fst (image_batch ! i) \<in> ?M \<longleftrightarrow> marked env result_map image_batch ?st1 i"
      using h same by auto
    moreover from h have "marked env result_map image_batch ?st1 i \<longleftrightarrow>
                            rename_raises env result_map image_batch ?st1 i"
      by (simp add: marked_def)
    ultimately show "fst (image_batch ! i) \<in> set (failed_files_for_retry ?pb)
                       \<longleftrightarrow> rename_raises env result_map image_batch ?st1 i"
      using h by (simp add: marks)
  qed
  from mem d c sets marks order own show ?thesis
    unfolding pd pc by (intro conjI)
qed

lemma described_load:
  "load_images env (dir two_files_run) [ustr ''a.jpg'', ustr ''b.jpg'']
     ([], failed_files_for_retry two_files_run) =
   (if image_open env 1
    then (if image_open env 2 then ([(ustr ''a.jpg'', 1), (ustr ''b.jpg'', 2)], [])
          else ([(ustr ''a.jpg'', 1)], [ustr ''b.jpg'']))
    else (if image_open env 2 then ([(ustr ''b.jpg'', 2)], [ustr ''a.jpg''])
          else ([], [ustr ''a.jpg'', ustr ''b.jpg''])))"
  by (simp add: two_files_run_def ustr_def)

theorem omitted_file_marked_witness:
  "load_images described_env (dir two_files_run) [ustr ''a.jpg'', ustr ''b.jpg'']
     ([], failed_files_for_retry two_files_run) =
     ([(ustr ''a.jpg'', 1), (ustr ''b.jpg'', 2)], []) \<and>
   fst (get_batch_info_from_images described_env [(ustr ''a.jpg'', 1), (ustr ''b.jpg'', 2)]) =
     Some [(ustr ''b.jpg'', ustr ''Red Sunset'')] \<and>
   map_of [(ustr ''b.jpg'', ustr ''Red Sunset'')] (ustr ''a.jpg'') = None \<and>
   ustr ''a.jpg'' \<in> set (failed_files_for_retry
     (process_batch described_env [ustr ''a.jpg'', ustr ''b.jpg''] two_files_run)) \<and>
   failed_files_for_retry
     (process_batch described_env [ustr ''a.jpg'', ustr ''b.jpg''] two_files_run) = [ustr ''a.jpg''] \<and>
   batch_processed_count
     (process_batch described_env [ustr ''a.jpg'', ustr ''b.jpg''] two_files_run) = 1"
proof -
  let ?batch = "[(ustr ''a.jpg'', 1 :: nat), (ustr ''b.jpg'', 2)]"
  let ?rm = "[(ustr ''b.jpg'', ustr ''Red Sunset'')]"
  have load: "load_images described_env (dir two_files_run) [ustr ''a.jpg'', ustr ''b.jpg'']
                ([], failed_files_for_retry two_files_run) = (?batch, [])"
    by (simp only: described_load) (simp add: described_env_def sample_env_def)
  have info: "fst (get_batch_info_from_images described_env ?batch) = Some ?rm"
    by (simp add: get_batch_info_from_images_def attempt_loop.simps MAX_RETRIES_def
          described_env_def sample_env_def build_result_map_def)
  have ne: "?rm \<noteq> []"
    by simp
  have inb: "ustr ''a.jpg'' \<in> fst ` set ?batch"
    by simp
  have omitted: "map_of ?rm (ustr ''a.jpg'') = None"
    by (simp add: ustr_def)
  from omitted_file_marked [OF load info inb omitted]
  have mem: "ustr ''a.jpg'' \<in> set (failed_files_for_retry
               (process_batch described_env [ustr ''a.jpg'', ustr ''b.jpg''] two_files_run))"
    by (rule conjunct1)
  have pb: "process_batch described_env [ustr ''a.jpg'', ustr ''b.jpg''] two_files_run =
              process_results described_env ?rm ?batch
                (two_files_run\<lparr>failed_files_for_retry := []\<rparr>)"
    using load _ info ne by (rule process_batch_described) simp
  have run: "failed_files_for_retry (process_results described_env ?rm ?batch
                (two_files_run\<lparr>failed_files_for_retry := []\<rparr>)) = [ustr ''a.jpg''] \<and>
             batch_processed_count (process_results described_env ?rm ?batch
                (two_files_run\<lparr>failed_files_for_retry := []\<rparr>)) = 1"
    by (simp add: name_defs sanitiser_defs two_files_run_def described_env_def sample_env_def
          Let_def)
  from load info omitted mem run show ?thesis
    unfolding pb by (intro conjI) simp_all
qed

text \<open>
  Claim C5, as stated, fails: the mapping omits \<open>a.jpg\<close> and describes \<open>b.jpg\<close>,
  the system refuses to rename \<open>b.jpg\<close>, and both names are marked as failed; no file
  is renamed.
\<close>

theorem omitted_file_only_counterexample:
  "fst (get_batch_info_from_images
          (described_env\<lparr>rename_denied := \<lambda>fs src dst. src = ustr ''b.jpg''\<rparr>)
          [(ustr ''a.jpg'', 1), (ustr ''b.jpg'', 2)]) =
     Some [(ustr ''b.jpg'', ustr ''Red Sunset'')] \<and>
   failed_files_for_retry
     (process_batch (described_env\<lparr>rename_denied := \<lambda>fs src dst. src = ustr ''b.jpg''\<rparr>)
        [ustr ''a.jpg'', ustr ''b.jpg''] two_files_run) = [ustr ''a.jpg'', ustr ''b.jpg''] \<and>
   batch_processed_count
     (process_batch (described_env\<lparr>rename_denied := \<lambda>fs src dst. src = ustr ''b.jpg''\<rparr>)
        [ustr ''a.jpg'', ustr ''b.jpg''] two_files_run) = 0"
  by (simp only: process_batch_def described_load)
     (simp add: get_batch_info_from_images_def attempt_loop.simps MAX_RETRIES_def
        build_result_map_def name_defs sanitiser_defs two_files_run_def described_env_def
        sample_env_def Let_def)

section \<open>The final tally\<close>

lemma process_results_tally:
  "\<exists>F. failed_files_for_retry (process_results env result_map image_batch st) =
           failed_files_for_retry st @ F \<and>
        set F \<subseteq> fst ` set image_batch \<and>
        (distinct (map fst image_batch) \<longrightarrow> distinct F) \<and>
        batch_processed_count (process_results env result_map image_batch st) + int (length F) =
          batch_processed_count st + int (length image_batch)"
proof (induction image_batch arbitrary: st)
  case Nil
  show ?case by simp
next
  case (Cons p rest)
  obtain g img where p: "p = (g, img)"
    by (cases p) auto
  let ?mark = "st\<lparr>failed_files_for_retry := failed_files_for_retry st @ [g]\<rparr>"
  have marked: ?case
    if run: "process_results env result_map (p # rest) st = process_results env result_map rest ?mark"
  proof -
    from Cons.IH [of ?mark] obtain F where
      f: "failed_files_for_retry (process_results env result_map rest ?mark) =
            failed_files_for_retry ?mark @ F"
      and s: "set F \<subseteq> fst ` set rest"
      and d: "distinct (map fst rest) \<longrightarrow> distinct F"
      and c: "batch_processed_count (process_results env result_map rest ?mark) + int (length F) =
                batch_processed_count ?mark + int (length rest)"
      by blast
    from s d have "distinct (map fst (p # rest)) \<longrightarrow> distinct (g # F)"
      by (auto simp: p)
    with f s c show ?thesis
      unfolding run by (intro exI [of _ "g # F"]) (auto simp: p)
  qed
  show ?case
  proof (cases "map_of result_map g")
    case None
    then show ?thesis
      by (intro marked) (simp add: p)
  next
    case (Some t)
    obtain n k r where r: "rename_with_title env (dir st) g (splitext_ext g) t = (n, k, r)"
      by (cases "rename_with_title env (dir st) g (splitext_ext g) t") auto
    show ?thesis
    proof (cases r)
      case (Inl e)
      with Some r show ?thesis
        by (intro marked) (simp add: p)
    next
      case (Inr fs')
      let ?done = "st\<lparr>dir := fs', batch_processed_count := batch_processed_count st + 1\<rparr>"
      from Some r Inr
      have run: "process_results env result_map (p # rest) st =
                   process_results env result_map rest ?done"
        by (simp add: p)
      from Cons.IH [of ?done] obtain F where
        f: "failed_files_for_retry (process_results env result_map rest ?done) =
              failed_files_for_retry ?done @ F"
        and s: "set F \<subseteq> fst ` set rest"
        and d: "distinct (map fst rest) \<longrightarrow> distinct F"
        and c: "batch_processed_count (process_results env result_map rest ?done) + int (length F) =
                  batch_processed_count ?done + int (length rest)"
        by blast
      from f s d c show ?thesis
        unfolding run by (intro exI [of _ F]) (auto simp: p)
    qed
  qed
qed

lemma process_batch_tally:
  assumes "distinct files"
  shows "\<exists>F. set (failed_files_for_retry (process_batch env files st)) =
               set (failed_files_for_retry st) \<union> F \<and>
             F \<subseteq> set files \<and>
             batch_processed_count (process_batch env files st) + int (card F) =
               batch_processed_count st + int (length files)"
proof -
  obtain image_batch failed where
    load: "load_images env (dir st) files ([], failed_files_for_retry st) = (image_batch, failed)"
    by (cases "load_images env (dir st) files ([], failed_files_for_retry st)") auto
  let ?L = "filter (loads env (dir st)) files"
  let ?U = "filter (\<lambda>f. \<not> loads env (dir st) f) files"
  from load_images_split [OF load]
  have names: "map fst image_batch = ?L" and failed: "failed = failed_files_for_retry st @ ?U"
    by simp_all
  let ?st1 = "st\<lparr>failed_files_for_retry := failed\<rparr>"
  have whole: ?thesis
    if "set (failed_files_for_retry (process_batch env files st)) =
          set (failed_files_for_retry st) \<union> set files"
      and "batch_processed_count (process_batch env files st) = batch_processed_count st"
    using that assms by (intro exI [of _ "set files"]) (simp add: distinct_card)
  have len: "length files = length ?L + length ?U"
    using sum_length_filter_compl [of "loads env (dir st)" files] by simp
  show ?thesis
  proof (cases "image_batch = []")
    case True
    with names have "?L = []"
      by simp
    then have "?U = files"
      by (simp add: filter_empty_conv filter_id_conv)
    with True load failed show ?thesis
      by (intro whole) (simp_all add: process_batch_def)
  next
    case False
    have all: "set (failed @ files) = set (failed_files_for_retry st) \<union> set files"
      using failed by auto
    show ?thesis
    proof (cases "fst (get_batch_info_from_images env image_batch)")
      case None
      with False load all show ?thesis
        by (intro whole) (simp_all add: process_batch_def)
    next
      case (Some result_map)
      show ?thesis
      proof (cases "result_map = []")
        case True
        with False Some load all show ?thesis
          by (intro whole) (simp_all add: process_batch_def)
      next
        case ne: False
        from False Some ne load
        have pb: "process_batch env files st = process_results env result_map image_batch ?st1"
          by (simp add: process_batch_def)
        from process_results_tally [of env result_map image_batch ?st1] obtain F where
          f: "failed_files_for_retry (process_results env result_map image_batch ?st1) =
                failed_files_for_retry ?st1 @ F"
          and s: "set F \<subseteq> fst ` set image_batch"
          and d: "distinct (map fst image_batch) \<longrightarrow> distinct F"
          and c: "batch_processed_count (process_results env result_map image_batch ?st1) +
                    int (length F) = batch_processed_count ?st1 + int (length image_batch)"
          by blast
        from names have "fst ` set image_batch = set ?L"
          by (metis set_map)
        with s have sL: "set F \<subseteq> set ?L"
          by simp
        from names assms d have dF: "distinct F"
          by simp
        from sL have disj: "set ?U \<inter> set F = {}"
          by auto
        from assms have "card (set ?U) = length ?U"
          by (intro distinct_card distinct_filter)
        moreover from dF have "card (set F) = length F"
          by (rule distinct_card)
        ultimately have "card (set ?U \<union> set F) = length ?U + length F"
          using disj by (simp only: card_Un_disjoint [OF finite_set finite_set disj])
        moreover from names have "length image_batch = length ?L"
          by (metis length_map)
        ultimately have "batch_processed_count (process_batch env files st) +
                           int (card (set ?U \<union> set F)) =
                         batch_processed_count st + int (length files)"
          using c len by (simp add: pb)
        moreover have "set (failed_files_for_retry (process_batch env files st)) =
                         set (failed_files_for_retry st) \<union> (set ?U \<union> set F)"
          by (simp only: pb f) (auto simp: failed)
        moreover from sL have "set ?U \<union> set F \<subseteq> set files"
          by auto
        ultimately show ?thesis
          by blast
      qed
    qed
  qed
qed

lemma batch_loop_tally:
  assumes "distinct all_files"
    and "set (failed_files_for_retry st) \<subseteq> set (take file_index all_files)"
    and "batch_processed_count st + int (card (set (failed_files_for_retry st))) =
           int (length (take file_index all_files))"
  shows "batch_processed_count (batch_loop env all_files file_index st) +
           int (card (set (failed_files_for_retry (batch_loop env all_files file_index st)))) =
         int (length all_files)"
  using assms
proof (induction env all_files file_index st rule: batch_loop.induct)
  case (1 env all_files file_index st)
  show ?case
  proof (cases "file_index < length all_files")
    case False
    with "1.prems"(3) show ?thesis
      by (simp add: batch_loop.simps [of env all_files file_index st])
  next
    case True
    let ?B = "take BATCH_SIZE (drop file_index all_files)"
    let ?st' = "process_batch env ?B st"
    from "1.prems"(1) have dB: "distinct ?B"
      by simp
    from process_batch_tally [OF dB, of env st] obtain F where
      f: "set (failed_files_for_retry ?st') = set (failed_files_for_retry st) \<union> F"
      and s: "F \<subseteq> set ?B"
      and c: "batch_processed_count ?st' + int (card F) =
                batch_processed_count st + int (length ?B)"
      by blast
    have tk: "take (file_index + BATCH_SIZE) all_files = take file_index all_files @ ?B"
      by (simp add: take_add)
    have "set (take file_index all_files) \<inter> set (drop file_index all_files) = {}"
      using "1.prems"(1) distinct_append [of "take file_index all_files" "drop file_index all_files"]
      by simp
    moreover have "set ?B \<subseteq> set (drop file_index all_files)"
      by (rule set_take_subset)
    ultimately have "set (take file_index all_files) \<inter> set ?B = {}"
      by blast
    with s "1.prems"(2) have disj: "set (failed_files_for_retry st) \<inter> F = {}"
      by blast
    from s have finF: "finite F"
      by (rule finite_subset) simp
    have "card (set (failed_files_for_retry ?st')) = card (set (failed_files_for_retry st)) + card F"
      unfolding f using finF disj by (intro card_Un_disjoint) simp_all
    with c "1.prems"(3)
    have cnt: "batch_processed_count ?st' + int (card (set (failed_files_for_retry ?st'))) =
                 int (length (take (file_index + BATCH_SIZE) all_files))"
      unfolding tk by simp
    from f s "1.prems"(2)
    have sub: "set (failed_files_for_retry ?st') \<subseteq> set (take (file_index + BATCH_SIZE) all_files)"
      unfolding tk by auto
    from "1.IH" [OF True "1.prems"(1) sub cnt] True show ?thesis
      by (simp add: batch_loop.simps [of env all_files file_index st])
  qed
qed

text \<open>
  Claim C2. At the end of a run the number of eligible files is the number renamed in
  the batch loop plus the number renamed in the recovery loop plus the number reported
  as untouched. When the directory listing names no file twice, as a listing does, the
  number reported as untouched is the number of files for which the recovery flow
  returned failure.
\<close>

theorem tally_adds_up:
  "total_eligible_files (rename_images_in_directory env fs) =
     batch_count (rename_images_in_directory env fs) +
     retry_count (rename_images_in_directory env fs) +
     total_failed (rename_images_in_directory env fs) \<and>
   (distinct (listdir env) \<longrightarrow>
      total_failed (rename_images_in_directory env fs) =
        int (length (filter (\<lambda>c. \<not> snd c) (retry_calls (rename_images_in_directory env fs)))))"
proof (intro conjI impI)
  let ?r = "rename_images_in_directory env fs"
  show "total_eligible_files ?r = batch_count ?r + retry_count ?r + total_failed ?r"
    by (simp add: summary_fields(7,8))
  assume "distinct (listdir env)"
  then have d: "distinct (filter (eligible env) (listdir env))"
    by simp
  let ?st0 = "\<lparr>dir = fs, batch_processed_count = 0, failed_files_for_retry = []\<rparr> :: 'a run"
  have "batch_processed_count (batch_loop env (filter (eligible env) (listdir env)) 0 ?st0) +
          int (card (set (failed_files_for_retry
                 (batch_loop env (filter (eligible env) (listdir env)) 0 ?st0)))) =
        int (length (filter (eligible env) (listdir env)))"
    by (rule batch_loop_tally [OF d]) simp_all
  then have batch: "batch_count ?r + int (card (set (failed_accumulated ?r))) =
                      total_eligible_files ?r"
    by (simp only: summary_fields(1,5,6))
  have "length (unique_failed_files ?r) = card (set (failed_accumulated ?r))"
    by (simp add: summary_fields(2) length_remdups_card_conv)
  moreover have "retry_count ?r + int (length (filter (\<lambda>c. \<not> snd c) (retry_calls ?r))) =
                   int (length (unique_failed_files ?r))"
    using retry_loop_count [of env "unique_failed_files ?r"
        "dir (batch_loop env (filter (eligible env) (listdir env)) 0 ?st0)" 0 "[]"]
    by (simp only: summary_fields(3,4)) simp
  ultimately show "total_failed ?r = int (length (filter (\<lambda>c. \<not> snd c) (retry_calls ?r)))"
    using batch by (simp add: summary_fields(7,8))
qed

definition mixed_env :: "nat env" where
  "mixed_env =
     described_env\<lparr>listdir := [ustr ''a.jpg'', ustr ''b.jpg'', ustr ''old_DESC.jpg''],
                   generate_single := \<lambda>c. ShortTitle (Some (ustr ''Blue Sky''))\<rparr>"

definition mixed_dir :: "nat directory" where
  "mixed_dir = fmupd (ustr ''old_DESC.jpg'') 9 (dir two_files_run)"

lemmas run_defs =
  batch_loop.simps BATCH_SIZE_def process_batch_def get_batch_info_from_images_def
  attempt_loop.simps MAX_RETRIES_def build_result_map_def retry_failed_file_def rollback_def
  request_title_def

lemma mixed_eligible:
  "filter (eligible mixed_env) (listdir mixed_env) = [ustr ''a.jpg'', ustr ''b.jpg'']"
  by (simp add: mixed_env_def described_env_def sample_env_def eligible_defs ustr_def)

lemma mixed_batch_loop:
  "batch_loop mixed_env [ustr ''a.jpg'', ustr ''b.jpg''] 0
     \<lparr>dir = mixed_dir, batch_processed_count = 0, failed_files_for_retry = []\<rparr> =
   \<lparr>dir = fmupd (ustr ''Red_Sunset_DESC.jpg'') 2 (fmdrop (ustr ''b.jpg'') mixed_dir),
    batch_processed_count = 1, failed_files_for_retry = [ustr ''a.jpg'']\<rparr>"
  by (simp add: run_defs name_defs sanitiser_defs mixed_dir_def two_files_run_def mixed_env_def
        described_env_def sample_env_def Let_def)

lemma mixed_retry_loop:
  "snd (retry_loop mixed_env [ustr ''a.jpg'']
          (fmupd (ustr ''Red_Sunset_DESC.jpg'') 2 (fmdrop (ustr ''b.jpg'') mixed_dir), 0, [])) =
     (1, [(ustr ''a.jpg'', True)])"
  by (simp add: run_defs name_defs sanitiser_defs mixed_dir_def two_files_run_def mixed_env_def
        described_env_def sample_env_def Let_def)

lemma mixed_unique:
  "unique_failed_files (rename_images_in_directory mixed_env mixed_dir) = [ustr ''a.jpg'']"
  by (simp only: summary_fields(1,2) mixed_eligible mixed_batch_loop) simp

theorem tally_adds_up_witness:
  "distinct (listdir mixed_env) \<and>
   total_eligible_files (rename_images_in_directory mixed_env mixed_dir) = 2 \<and>
   batch_count (rename_images_in_directory mixed_env mixed_dir) = 1 \<and>
   retry_count (rename_images_in_directory mixed_env mixed_dir) = 1 \<and>
   retry_calls (rename_images_in_directory mixed_env mixed_dir) = [(ustr ''a.jpg'', True)] \<and>
   total_failed (rename_images_in_directory mixed_env mixed_dir) = 0"
proof -
  let ?r = "rename_images_in_directory mixed_env mixed_dir"
  have d: "distinct (listdir mixed_env)"
    by (simp add: mixed_env_def ustr_def)
  have e: "total_eligible_files ?r = 2"
    by (simp only: summary_fields(6) mixed_eligible) simp
  have b: "batch_count ?r = 1"
    by (simp only: summary_fields(5) mixed_eligible mixed_batch_loop) simp
  have r: "retry_count ?r = 1"
    by (simp only: summary_fields(4) mixed_unique mixed_eligible mixed_batch_loop
          run.select_convs mixed_retry_loop fst_conv snd_conv)
  have c: "retry_calls ?r = [(ustr ''a.jpg'', True)]"
    by (simp only: summary_fields(3) mixed_unique mixed_eligible mixed_batch_loop
          run.select_convs mixed_retry_loop fst_conv snd_conv)
  from tally_adds_up [of mixed_env mixed_dir]
  have "distinct (listdir mixed_env) \<longrightarrow>
          total_failed ?r = int (length (filter (\<lambda>c. \<not> snd c) (retry_calls ?r)))"
    by (rule conjunct2)
  from this d have "total_failed ?r = int (length (filter (\<lambda>c. \<not> snd c) (retry_calls ?r)))"
    by (rule mp)
  then have f: "total_failed ?r = 0"
    by (simp add: c)
  from d e b r c f show ?thesis
    by (intro conjI)
qed

end
